theory Spec2Isabelle
  imports Main "HOL-Library.Word" "HOL-Library.Sublist"
begin

section \<open>quale-core: visual width and line breaking of styled terminal text\<close>

text \<open>
  A shallow embedding of \<^verbatim>\<open>src/strings.ts\<close> (\<^verbatim>\<open>breakLine\<close>, \<^verbatim>\<open>breakLines\<close>,
  \<^verbatim>\<open>stripAnsi\<close>, \<^verbatim>\<open>stringWidth\<close>) and of the code point predicates of
  \<^verbatim>\<open>codes.ts\<close>.

  A JavaScript string is a sequence of 16-bit UTF-16 code units; \<^verbatim>\<open>str.length\<close>,
  \<^verbatim>\<open>str[i]\<close> and \<^verbatim>\<open>str.substring\<close> count code units. Code points and widths are
  JavaScript numbers that only ever hold integers here; they are modelled as \<open>int\<close>.
\<close>

subsection \<open>Strings and code points\<close>

type_synonym unit16 = "16 word"
type_synonym jsstring = "unit16 list"

text \<open>A string literal of ASCII characters, one code unit per character.\<close>

definition utf16 :: "string \<Rightarrow> jsstring" where
  "utf16 s = map of_char s"

text \<open>
  \<^verbatim>\<open>String.prototype.codePointAt\<close>: \<^verbatim>\<open>undefined\<close> (here \<open>None\<close>) past the end; a high
  surrogate followed by a low surrogate is read as one code point above 0xFFFF; every other
  unit is its own code point.
\<close>

definition codePointAt :: "jsstring \<Rightarrow> nat \<Rightarrow> int option" where
  "codePointAt str i =
     (if i < length str then
        (let hi = uint (str ! i) in
         if 0xD800 \<le> hi \<and> hi \<le> 0xDBFF \<and> i + 1 < length str then
           (let lo = uint (str ! (i + 1)) in
            if 0xDC00 \<le> lo \<and> lo \<le> 0xDFFF
            then Some ((hi - 0xD800) * 0x400 + (lo - 0xDC00) + 0x10000)
            else Some hi)
         else Some hi)
      else None)"

subsection \<open>Code point predicates (codes.ts)\<close>

text \<open>
  Every predicate of the source starts with \<^verbatim>\<open>Number.isInteger(cp)\<close>; the argument is an
  \<open>int\<close> here, so that test is true and is left out.
\<close>

definition isBreakingSpace :: "int \<Rightarrow> bool" where
  "isBreakingSpace cp \<longleftrightarrow>
     cp = 0x20 \<or> cp = 0x1680 \<or> (0x2000 \<le> cp \<and> cp \<le> 0x200A) \<or> cp = 0x205F \<or> cp = 0x3000"

definition isCombining :: "int \<Rightarrow> bool" where
  "isCombining cp \<longleftrightarrow> cp \<ge> 0x300 \<and> cp \<le> 0x36F"

definition isControl :: "int \<Rightarrow> bool" where
  "isControl cp \<longleftrightarrow> cp \<le> 0x1F \<or> (cp \<ge> 0x7F \<and> cp \<le> 0x9F)"

definition isSurrogate :: "int \<Rightarrow> bool" where
  "isSurrogate cp \<longleftrightarrow> cp > 0xFFFF"

definition isFullwidth :: "int \<Rightarrow> bool" where
  "isFullwidth cp \<longleftrightarrow> cp \<ge> 0x1100 \<and> (
     cp \<le> 0x115F \<or>
     cp = 0x2329 \<or>
     cp = 0x232A \<or>
     (0x2E80 \<le> cp \<and> cp \<le> 0x3247 \<and> cp \<noteq> 0x303F) \<or>
     (0x3250 \<le> cp \<and> cp \<le> 0x4DBF) \<or>
     (0x4E00 \<le> cp \<and> cp \<le> 0xA4C6) \<or>
     (0xA960 \<le> cp \<and> cp \<le> 0xA97C) \<or>
     (0xAC00 \<le> cp \<and> cp \<le> 0xD7A3) \<or>
     (0xF900 \<le> cp \<and> cp \<le> 0xFAFF) \<or>
     (0xFE10 \<le> cp \<and> cp \<le> 0xFE19) \<or>
     (0xFE30 \<le> cp \<and> cp \<le> 0xFE6B) \<or>
     (0xFF01 \<le> cp \<and> cp \<le> 0xFF60) \<or>
     (0xFFE0 \<le> cp \<and> cp \<le> 0xFFE6) \<or>
     (0x1B000 \<le> cp \<and> cp \<le> 0x1B001) \<or>
     (0x1F200 \<le> cp \<and> cp \<le> 0x1F251) \<or>
     (0x20000 \<le> cp \<and> cp \<le> 0x3FFFD))"

definition isBreakingDash :: "int \<Rightarrow> bool" where
  "isBreakingDash cp \<longleftrightarrow>
     cp = 0x2D \<or> cp = 0x58A \<or> cp = 0x5BE \<or> cp = 0x1400 \<or> cp = 0x1806 \<or>
     (0x2010 \<le> cp \<and> cp \<le> 0x30A0 \<and> (
        cp = 0x2010 \<or> (0x2012 \<le> cp \<and> cp \<le> 0x2015) \<or> cp = 0x2E17 \<or> cp = 0x2E1A \<or>
        cp = 0x2E3A \<or> cp = 0x2E3B \<or> cp = 0x2E40 \<or> cp = 0x301C \<or> cp = 0x3030 \<or>
        cp = 0x30A0)) \<or>
     (0xFE31 \<le> cp \<and> cp \<le> 0xFF0D \<and> (
        cp = 0xFE31 \<or> cp = 0xFE32 \<or> cp = 0xFE58 \<or> cp = 0xFE63 \<or> cp = 0xFF0D)) \<or>
     cp = 0x10EAD"

subsection \<open>The regular expressions (regexes.js), as parameters\<close>

text \<open>
  \<^verbatim>\<open>strings.ts\<close> imports its regular expressions from \<^verbatim>\<open>./regexes.js\<close>, which is
  not among the sources. The four uses are therefore parameters of the model, one field per
  call site:
  \<^item> \<open>lineBreakReplace s\<close> is \<^verbatim>\<open>s.replace(regexes.lineBreak.global, '\n')\<close>;
  \<^item> \<open>ansiConsecMatch s\<close> is \<^verbatim>\<open>s.match(regexes.ansi.consec)\<close>: \<open>None\<close> for
    \<^verbatim>\<open>null\<close>, else the match's \<^verbatim>\<open>index\<close> and its text (element 0);
  \<^item> \<open>ansiBgGlobalMatch s\<close> is \<^verbatim>\<open>s.match(regexes.ansi.bgGlobal)\<close>: \<open>None\<close> for
    \<^verbatim>\<open>null\<close>, else the list of all matches;
  \<^item> \<open>ansiGlobalStrip s\<close> is \<^verbatim>\<open>s.replace(regexes.ansi.global, '')\<close>.
\<close>

record regexes =
  lineBreakReplace :: "jsstring \<Rightarrow> jsstring"
  ansiConsecMatch :: "jsstring \<Rightarrow> (nat \<times> jsstring) option"
  ansiBgGlobalMatch :: "jsstring \<Rightarrow> jsstring list option"
  ansiGlobalStrip :: "jsstring \<Rightarrow> jsstring"

subsection \<open>breakLine (strings.ts)\<close>

text \<open>\<^verbatim>\<open>const BG_CLOSE = '\x1B[49m'\<close>\<close>

definition BG_CLOSE :: jsstring where
  "BG_CLOSE = [0x1B, 0x5B, 0x34, 0x39, 0x6D]"

text \<open>
  The \<^verbatim>\<open>maxWidth\<close> argument is a JavaScript number: an integer, a finite number that is
  not an integer, an infinity or NaN.
\<close>

datatype jsnumber = JInt int | JFraction | JInfinity | JNegInfinity | JNaN

text \<open>
  The options object: \<^verbatim>\<open>const {tolerance = 0, trimBreak = false} = opts || {}\<close>. A missing
  object and a missing property both give the default.
\<close>

record wrapOptions =
  tolerance :: "int option"
  trimBreak :: "bool option"

definition optTolerance :: "wrapOptions option \<Rightarrow> int" where
  "optTolerance opts = (case opts of None \<Rightarrow> 0 | Some r \<Rightarrow> (case tolerance r of None \<Rightarrow> 0 | Some t \<Rightarrow> t))"

definition optTrimBreak :: "wrapOptions option \<Rightarrow> bool" where
  "optTrimBreak opts = (case opts of None \<Rightarrow> False | Some r \<Rightarrow> (case trimBreak r of None \<Rightarrow> False | Some b \<Rightarrow> b))"

text \<open>
  The variables of \<^verbatim>\<open>breakLine\<close> that its closures and its loop share. \<open>ansiMatch\<close> holds
  \<^verbatim>\<open>ansiIndex\<close> (already offset by the index of the search) and the matched text;
  \<open>None\<close> is the failed match (\<^verbatim>\<open>ansiMatch\<close> and \<^verbatim>\<open>ansiIndex\<close> both \<^verbatim>\<open>null\<close>).
\<close>

record breakState =
  lines :: "jsstring list"
  bgUnclosed :: "jsstring list"
  line :: jsstring
  lineWidth :: int
  index :: nat
  ansiMatch :: "(nat \<times> jsstring) option"

text \<open>The closure \<^verbatim>\<open>push\<close> (lines 63 to 68).\<close>

definition push :: "breakState \<Rightarrow> breakState" where
  "push st = st\<lparr>
     lines := lines st @ [line st @ (if bgUnclosed st = [] then [] else BG_CLOSE)],
     line := concat (bgUnclosed st),
     lineWidth := 0\<rparr>"

text \<open>The closure \<^verbatim>\<open>searchAnsi\<close> (lines 70 to 73).\<close>

definition searchAnsi :: "regexes \<Rightarrow> jsstring \<Rightarrow> breakState \<Rightarrow> breakState" where
  "searchAnsi rx str st = st\<lparr>
     ansiMatch := (case ansiConsecMatch rx (drop (index st) str) of
                     None \<Rightarrow> None
                   | Some (i, a) \<Rightarrow> Some (i + index st, a))\<rparr>"

text \<open>\<^verbatim>\<open>Array.prototype.lastIndexOf\<close>: the last position of an element, or -1.\<close>

fun lastIndexOf :: "'a list \<Rightarrow> 'a \<Rightarrow> int" where
  "lastIndexOf [] x = -1"
| "lastIndexOf (y # ys) x =
     (let r = lastIndexOf ys x in
      if r \<ge> 0 then r + 1 else if y = x then 0 else -1)"

text \<open>
  Lines 86 to 99: the update of \<^verbatim>\<open>bgUnclosed\<close> from the background sequences \<open>bgs\<close> of
  one ANSI run. \<^verbatim>\<open>splice(0)\<close> empties the array; the loop pushes \<^verbatim>\<open>bgs[i]\<close>,
  \<^verbatim>\<open>bgs[i+1]\<close>, ... to its end.
\<close>

definition trackBg :: "jsstring list \<Rightarrow> jsstring list \<Rightarrow> jsstring list" where
  "trackBg bgs unclosed =
     (let i = nat (lastIndexOf bgs BG_CLOSE + 1) in
      if i = length bgs then [] else unclosed @ drop i bgs)"

text \<open>
  Lines 78 to 107, taken when \<^verbatim>\<open>ansiIndex === index\<close>, with \<open>ansi\<close> the matched text.
  The result's first component says whether the loop was left by \<^verbatim>\<open>break\<close>.
\<close>

definition ansiStep :: "regexes \<Rightarrow> jsstring \<Rightarrow> jsstring \<Rightarrow> breakState \<Rightarrow> bool \<times> breakState" where
  "ansiStep rx str ansi st =
     (let st1 = st\<lparr>line := line st @ ansi, index := index st + length ansi\<rparr>;
          st2 = (case ansiBgGlobalMatch rx ansi of
                   None \<Rightarrow> st1
                 | Some bgs \<Rightarrow> st1\<lparr>bgUnclosed := trackBg bgs (bgUnclosed st1)\<rparr>)
      in if index st2 = length str
         then (True, st2\<lparr>bgUnclosed := []\<rparr>)
         else (False, searchAnsi rx str st2))"

text \<open>
  Lines 123 to 140: the segment at the index, its width, and the index after
  \<^verbatim>\<open>++index\<close> in the surrogate case. \<^verbatim>\<open>str[index]\<close> and \<^verbatim>\<open>str[index + 1]\<close> exist
  whenever they are read: \<open>code\<close> is \<^verbatim>\<open>str.codePointAt(index)\<close>, which is above 0xFFFF only
  for a complete pair. They are written with \<open>take\<close> and \<open>drop\<close>, which are total.
\<close>

definition segmentAt :: "jsstring \<Rightarrow> nat \<Rightarrow> int \<Rightarrow> jsstring \<times> int \<times> nat" where
  "segmentAt str i code =
     (if isSurrogate code then (take 2 (drop i str), 2, i + 1)
      else if isCombining code \<or> isControl code then (take 1 (drop i str), 0, i)
      else if isFullwidth code then (take 1 (drop i str), 2, i)
      else (take 1 (drop i str), 1, i))"

text \<open>
  Lines 142 to 152, "Determine whether to break": the segment may be emptied, and the line
  may be pushed before the segment is added.
\<close>

definition breakDecision ::
  "bool \<Rightarrow> int \<Rightarrow> int \<Rightarrow> int \<Rightarrow> jsstring \<times> int \<Rightarrow> breakState \<Rightarrow> (jsstring \<times> int) \<times> breakState" where
  "breakDecision trim tol maxWidth code seg st =
     (let thisWidth = lineWidth st + snd seg in
      if thisWidth > maxWidth then
        (let isBreakSpace = isBreakingSpace code;
             seg' = (if trim \<and> isBreakSpace then ([], 0) else seg);
             st' = (if isBreakSpace \<or> thisWidth > maxWidth + tol then push st else st)
         in (seg', st'))
      else (seg, st))"

text \<open>Lines 153 to 155: add the segment to the line and update the width.\<close>

definition addSegment :: "jsstring \<times> int \<Rightarrow> breakState \<Rightarrow> breakState" where
  "addSegment seg st = st\<lparr>lineWidth := lineWidth st + snd seg, line := line st @ fst seg\<rparr>"

text \<open>Lines 156 to 161: the break after a dash.\<close>

definition dashBreak :: "int \<Rightarrow> jsstring \<Rightarrow> int \<Rightarrow> breakState \<Rightarrow> breakState" where
  "dashBreak maxWidth str code st =
     (if lineWidth st \<ge> maxWidth \<and> int (index st) < int (length str) - 1
      then (if isBreakingDash code then push st else st)
      else st)"

text \<open>Lines 117 to 161: the loop body for a character that is not a line break.\<close>

definition charStep :: "bool \<Rightarrow> int \<Rightarrow> int \<Rightarrow> jsstring \<Rightarrow> int \<Rightarrow> breakState \<Rightarrow> breakState" where
  "charStep trim tol maxWidth str code st =
     (case segmentAt str (index st) code of (segment, segmentWidth, i) \<Rightarrow>
        (case breakDecision trim tol maxWidth code (segment, segmentWidth) (st\<lparr>index := i\<rparr>) of
           (seg', st') \<Rightarrow> dashBreak maxWidth str code (addSegment seg' st')))"

text \<open>Lines 108 to 161: the loop body from \<^verbatim>\<open>codePointAt\<close> on.\<close>

definition codeStep :: "bool \<Rightarrow> int \<Rightarrow> int \<Rightarrow> jsstring \<Rightarrow> breakState \<Rightarrow> breakState" where
  "codeStep trim tol maxWidth str st =
     (case codePointAt str (index st) of
        None \<Rightarrow> st
      | Some code \<Rightarrow> if code = 0x0A then push st else charStep trim tol maxWidth str code st)"

text \<open>
  Lines 78 to 107: the \<^verbatim>\<open>if (ansiIndex === index)\<close> statement. The first component of
  the result says whether the loop was left by \<^verbatim>\<open>break\<close>.
\<close>

definition ansiPart :: "regexes \<Rightarrow> jsstring \<Rightarrow> breakState \<Rightarrow> bool \<times> breakState" where
  "ansiPart rx str st =
     (case ansiMatch st of
        None \<Rightarrow> (False, st)
      | Some (ansiIndex, ansi) \<Rightarrow>
          if ansiIndex = index st then ansiStep rx str ansi st else (False, st))"

text \<open>
  One pass through the loop body (lines 78 to 161), without the \<^verbatim>\<open>++index\<close> of the
  \<^verbatim>\<open>for\<close> statement. The first component says whether the loop was left by \<^verbatim>\<open>break\<close>.
\<close>

definition iteration :: "regexes \<Rightarrow> bool \<Rightarrow> int \<Rightarrow> int \<Rightarrow> jsstring \<Rightarrow> breakState \<Rightarrow> bool \<times> breakState" where
  "iteration rx trim tol maxWidth str st =
     (case ansiPart rx str st of
        (True, st') \<Rightarrow> (True, st')
      | (False, st') \<Rightarrow> (False, codeStep trim tol maxWidth str st'))"

lemma index_push [simp]: "index (push st) = index st"
  by (simp add: push_def)

lemma index_ansiStep: "index st \<le> index (snd (ansiStep rx str ansi st))"
  by (simp add: ansiStep_def Let_def searchAnsi_def split: option.splits)

lemma index_breakDecision [simp]:
  "index (snd (breakDecision trim tol maxWidth code seg st)) = index st"
  by (simp add: breakDecision_def Let_def)

lemma index_addSegment [simp]: "index (addSegment seg st) = index st"
  by (simp add: addSegment_def)

lemma index_dashBreak [simp]: "index (dashBreak maxWidth str code st) = index st"
  by (simp add: dashBreak_def)

lemma segmentAt_index: "i \<le> snd (snd (segmentAt str i code))"
  by (simp add: segmentAt_def)

lemma index_charStep_eq:
  "index (charStep trim tol maxWidth str code st) = snd (snd (segmentAt str (index st) code))"
proof -
  obtain segment segmentWidth i where s: "segmentAt str (index st) code = (segment, segmentWidth, i)"
    by (cases "segmentAt str (index st) code") auto
  obtain seg' st' where d:
    "breakDecision trim tol maxWidth code (segment, segmentWidth) (st\<lparr>index := i\<rparr>) = (seg', st')"
    by (cases "breakDecision trim tol maxWidth code (segment, segmentWidth) (st\<lparr>index := i\<rparr>)") auto
  have "index st' = i"
    using index_breakDecision [of trim tol maxWidth code "(segment, segmentWidth)" "st\<lparr>index := i\<rparr>"] d
    by simp
  then show ?thesis by (simp add: charStep_def s d)
qed

lemma index_charStep: "index st \<le> index (charStep trim tol maxWidth str code st)"
  by (simp add: index_charStep_eq segmentAt_index)

lemma index_codeStep: "index st \<le> index (codeStep trim tol maxWidth str st)"
  using index_charStep by (simp add: codeStep_def split: option.splits)

lemma index_ansiPart: "index st \<le> index (snd (ansiPart rx str st))"
  using index_ansiStep [of st rx str]
  by (simp add: ansiPart_def split: option.splits prod.splits)

lemma index_iteration: "index st \<le> index (snd (iteration rx trim tol maxWidth str st))"
proof -
  obtain b st' where r: "ansiPart rx str st = (b, st')" by (cases "ansiPart rx str st")
  have le: "index st \<le> index st'" using index_ansiPart [of st rx str] r by simp
  show ?thesis
  proof (cases b)
    case True
    with r le show ?thesis by (simp add: iteration_def)
  next
    case False
    have "index st' \<le> index (codeStep trim tol maxWidth str st')" by (rule index_codeStep)
    with r le False show ?thesis by (simp add: iteration_def)
  qed
qed

text \<open>
  The \<^verbatim>\<open>for\<close> loop of lines 77 to 162. The index grows by at least one in every pass, so
  the loop ends.
\<close>

function loop :: "regexes \<Rightarrow> bool \<Rightarrow> int \<Rightarrow> int \<Rightarrow> jsstring \<Rightarrow> breakState \<Rightarrow> breakState" where
  "loop rx trim tol maxWidth str st =
     (if index st < length str then
        (case iteration rx trim tol maxWidth str st of
           (True, st') \<Rightarrow> st'
         | (False, st') \<Rightarrow> loop rx trim tol maxWidth str (st'\<lparr>index := index st' + 1\<rparr>))
      else st)"
  by pat_completeness auto
termination
proof (relation "measure (\<lambda>(rx, trim, tol, maxWidth, str, st). length str - index st)", goal_cases)
  case 1
  show ?case by simp
next
  case (2 rx trim tol maxWidth str st x y)
  then have "index st \<le> index y"
    using index_iteration [of st rx trim tol maxWidth str] by (metis snd_conv)
  with 2 show ?case by simp
qed

declare loop.simps [simp del]

text \<open>
  The variables as lines 59 and 60 initialise them, and the state at line 76, after the first
  \<^verbatim>\<open>searchAnsi()\<close>.
\<close>

definition startState :: breakState where
  "startState = \<lparr>lines = [], bgUnclosed = [], line = [], lineWidth = 0, index = 0, ansiMatch = None\<rparr>"

definition initState :: "regexes \<Rightarrow> jsstring \<Rightarrow> breakState" where
  "initState rx str = searchAnsi rx str startState"

text \<open>
  \<^verbatim>\<open>breakLine\<close> (lines 50 to 165). \<^verbatim>\<open>!str\<close> is true of the empty string only, the
  parameter being typed \<^verbatim>\<open>string\<close>.
\<close>

definition breakLine :: "regexes \<Rightarrow> jsstring \<Rightarrow> jsnumber \<Rightarrow> wrapOptions option \<Rightarrow> jsstring list" where
  "breakLine rx str maxWidth opts =
     (if str = [] then [str]
      else (case maxWidth of
              JInt w \<Rightarrow>
                if w < 2 then [str]
                else (let str' = lineBreakReplace rx str
                      in lines (push (loop rx (optTrimBreak opts) (optTolerance opts) w str'
                                        (initState rx str'))))
            | _ \<Rightarrow> [str]))"

text \<open>\<^verbatim>\<open>breakLines\<close> (lines 171 to 173).\<close>

definition breakLines :: "regexes \<Rightarrow> jsstring list \<Rightarrow> jsnumber \<Rightarrow> jsstring list" where
  "breakLines rx ls width = concat (map (\<lambda>l. breakLine rx l width None) ls)"

subsection \<open>breakLine on values of any type\<close>


























subsection \<open>stripAnsi and stringWidth (strings.ts)\<close>

text \<open>\<^verbatim>\<open>stripAnsi\<close> (lines 227 to 229).\<close>

definition stripAnsi :: "regexes \<Rightarrow> jsstring \<Rightarrow> jsstring" where
  "stripAnsi rx str = ansiGlobalStrip rx str"

text \<open>
  The \<^verbatim>\<open>for\<close> loop of \<^verbatim>\<open>stringWidth\<close> (lines 262 to 283), with the index and the
  width it has reached.
\<close>

function widthLoop :: "jsstring \<Rightarrow> nat \<Rightarrow> int \<Rightarrow> int" where
  "widthLoop str i width =
     (if i < length str then
        (case codePointAt str i of
           None \<Rightarrow> widthLoop str (i + 1) width
         | Some codePoint \<Rightarrow>
             if isControl codePoint then widthLoop str (i + 1) width
             else if isCombining codePoint then widthLoop str (i + 1) width
             else if isSurrogate codePoint
               then widthLoop str (i + 1 + 1) (width + 1 + (if isFullwidth codePoint then 2 else 1))
               else widthLoop str (i + 1) (width + (if isFullwidth codePoint then 2 else 1)))
      else width)"
  by pat_completeness auto
termination
  by (relation "measure (\<lambda>(str, i, width). length str - i)") auto

declare widthLoop.simps [simp del]

text \<open>
  The argument of \<^verbatim>\<open>stringWidth\<close> is typed \<^verbatim>\<open>string\<close>, and the function tests
  \<^verbatim>\<open>typeof str !== 'string'\<close> all the same: a value is a string or something else.
\<close>

datatype jsvalue = JString jsstring | JNotAString

text \<open>\<^verbatim>\<open>stringWidth\<close> (lines 252 to 285).\<close>

definition stringWidth :: "regexes \<Rightarrow> jsvalue \<Rightarrow> int" where
  "stringWidth rx v =
     (case v of
        JNotAString \<Rightarrow> 0
      | JString str \<Rightarrow>
          if length str = 0 then 0
          else (let str' = stripAnsi rx str
                in if length str' = 0 then 0 else widthLoop str' 0 0))"

subsection \<open>A model of the regular expressions\<close>

text \<open>
  Modelled from the spec: \<^verbatim>\<open>regexes.js\<close> (\<^verbatim>\<open>lineBreak.global\<close>, \<^verbatim>\<open>ansi.consec\<close>,
  \<^verbatim>\<open>ansi.bgGlobal\<close>, \<^verbatim>\<open>ansi.global\<close>) is missing from the sources. The spec gives the
  escape grammar as the CSI shape \<^verbatim>\<open>ESC [ params letter\<close>, the background reset as
  \<^verbatim>\<open>ESC[49m\<close>, background-setting sequences as the tokens that open a background, and
  line breaks as "CRLF and other line-terminator variants". The model below is a small
  reading of those words: a sequence is ESC, an opening bracket, digits and semicolons, one
  ASCII letter; a background sequence is \<^verbatim>\<open>ESC[4Xm\<close> with \<^verbatim>\<open>X\<close> from 0 to 7 (a
  background colour) or 9 (the reset), or \<^verbatim>\<open>ESC[10Xm\<close> with \<^verbatim>\<open>X\<close> from 0 to 7; a
  line break is CR LF, CR, LF, U+2028 or U+2029. It instantiates the parameters wherever a
  concrete run is needed; the general theorems hold for every value of the parameters.
\<close>

definition isCsiParam :: "unit16 \<Rightarrow> bool" where
  "isCsiParam u \<longleftrightarrow> (0x30 \<le> u \<and> u \<le> 0x39) \<or> u = 0x3B"

definition isCsiFinal :: "unit16 \<Rightarrow> bool" where
  "isCsiFinal u \<longleftrightarrow> (0x41 \<le> u \<and> u \<le> 0x5A) \<or> (0x61 \<le> u \<and> u \<le> 0x7A)"

text \<open>The length of the escape sequence that starts the string, 0 when there is none.\<close>

definition csiLength :: "jsstring \<Rightarrow> nat" where
  "csiLength s =
     (case s of
        e # b # rest \<Rightarrow>
          if e = 0x1B \<and> b = 0x5B then
            (let n = length (takeWhile isCsiParam rest) in
             case drop n rest of
               [] \<Rightarrow> 0
             | f # _ \<Rightarrow> if isCsiFinal f then n + 3 else 0)
          else 0
      | _ \<Rightarrow> 0)"

text \<open>
  The length of the longest run of consecutive escape sequences that starts the string.
  The fuel bounds the number of sequences; the length of the string is always enough.
\<close>

fun consecLength :: "nat \<Rightarrow> jsstring \<Rightarrow> nat" where
  "consecLength 0 s = 0"
| "consecLength (Suc fuel) s =
     (let n = csiLength s in if n = 0 then 0 else n + consecLength fuel (drop n s))"

text \<open>\<^verbatim>\<open>s.match(ansi.consec)\<close>: the first position where a run starts, and the run.\<close>

fun modelConsecMatch :: "jsstring \<Rightarrow> (nat \<times> jsstring) option" where
  "modelConsecMatch [] = None"
| "modelConsecMatch (c # cs) =
     (let n = consecLength (Suc (length cs)) (c # cs) in
      if n = 0 then (case modelConsecMatch cs of None \<Rightarrow> None | Some (i, a) \<Rightarrow> Some (Suc i, a))
      else Some (0, take n (c # cs)))"

text \<open>
  \<^verbatim>\<open>s.replace(ansi.global, '')\<close>: \<open>k\<close> counts the units of a matched sequence that are
  still to be dropped.
\<close>

fun stripFrom :: "nat \<Rightarrow> jsstring \<Rightarrow> jsstring" where
  "stripFrom k [] = []"
| "stripFrom (Suc k) (c # cs) = stripFrom k cs"
| "stripFrom 0 (c # cs) =
     (let n = csiLength (c # cs) in if n = 0 then c # stripFrom 0 cs else stripFrom (n - 1) cs)"

text \<open>The length of the background sequence that starts the string, 0 when there is none.\<close>

fun bgLength :: "jsstring \<Rightarrow> nat" where
  "bgLength (e # b # d1 # d2 # rest) =
     (if e = 0x1B \<and> b = 0x5B \<and> d1 = 0x34 \<and> ((0x30 \<le> d2 \<and> d2 \<le> 0x37) \<or> d2 = 0x39)
         \<and> take 1 rest = [0x6D] then 5
      else if e = 0x1B \<and> b = 0x5B \<and> d1 = 0x31 \<and> d2 = 0x30
         \<and> (case rest of d3 # m # _ \<Rightarrow> 0x30 \<le> d3 \<and> d3 \<le> 0x37 \<and> m = 0x6D | _ \<Rightarrow> False) then 6
      else 0)"
| "bgLength _ = 0"

text \<open>\<^verbatim>\<open>s.match(ansi.bgGlobal)\<close>: all background sequences, \<^verbatim>\<open>null\<close> when there is none.\<close>

fun bgMatches :: "jsstring \<Rightarrow> jsstring list" where
  "bgMatches [] = []"
| "bgMatches (c # cs) =
     (let n = bgLength (c # cs) in
      if n = 0 then bgMatches cs else take n (c # cs) # bgMatches cs)"

definition modelBgGlobalMatch :: "jsstring \<Rightarrow> jsstring list option" where
  "modelBgGlobalMatch s = (case bgMatches s of [] \<Rightarrow> None | m # ms \<Rightarrow> Some (m # ms))"

text \<open>\<^verbatim>\<open>s.replace(lineBreak.global, '\n')\<close>.\<close>

definition isLineTerminator :: "unit16 \<Rightarrow> bool" where
  "isLineTerminator u \<longleftrightarrow> u = 0x0A \<or> u = 0x0D \<or> u = 0x2028 \<or> u = 0x2029"

fun modelLineBreakReplace :: "jsstring \<Rightarrow> jsstring" where
  "modelLineBreakReplace [] = []"
| "modelLineBreakReplace [c] = [if isLineTerminator c then 0x0A else c]"
| "modelLineBreakReplace (c # d # ds) =
     (if c = 0x0D \<and> d = 0x0A then 0x0A # modelLineBreakReplace ds
      else (if isLineTerminator c then 0x0A else c) # modelLineBreakReplace (d # ds))"

definition modelRegexes :: regexes where
  "modelRegexes = \<lparr>
     lineBreakReplace = modelLineBreakReplace,
     ansiConsecMatch = modelConsecMatch,
     ansiBgGlobalMatch = modelBgGlobalMatch,
     ansiGlobalStrip = stripFrom 0\<rparr>"

section \<open>Notions of the statements and proofs\<close>

text \<open>
  The states in which the \<^verbatim>\<open>for\<close> statement tests its condition during
  \<^verbatim>\<open>breakLine\<close>: the state of line 76, and the state after each pass that did not leave the
  loop, with its \<^verbatim>\<open>++index\<close>.
\<close>

inductive reachable :: "regexes \<Rightarrow> bool \<Rightarrow> int \<Rightarrow> int \<Rightarrow> jsstring \<Rightarrow> breakState \<Rightarrow> bool"
  for rx trim tol maxWidth str where
  start: "reachable rx trim tol maxWidth str (initState rx str)"
| pass: "reachable rx trim tol maxWidth str st \<Longrightarrow> index st < length str \<Longrightarrow>
         iteration rx trim tol maxWidth str st = (False, st') \<Longrightarrow>
         reachable rx trim tol maxWidth str (st'\<lparr>index := index st' + 1\<rparr>)"

text \<open>
  \<open>carries st st'\<close>: what \<open>st\<close> has pushed is still the start of what \<open>st'\<close> has pushed, and
  the line buffer of \<open>st\<close> is the start of the next line pushed after it, or of the line
  buffer of \<open>st'\<close> when no line has been pushed since.
\<close>

definition carries :: "breakState \<Rightarrow> breakState \<Rightarrow> bool" where
  "carries st st' \<longleftrightarrow>
     (lines st' = lines st \<and> prefix (line st) (line st'))
     \<or> (\<exists>l rest. lines st' = lines st @ l # rest \<and> prefix (line st) l)"

text \<open>
  \<open>closedFlushes st st'\<close>: from \<open>st\<close> to \<open>st'\<close> the tracked background sequences are the
  same, every line pushed in between ends with \<^verbatim>\<open>ESC[49m\<close>, and after a push the line
  buffer starts with the tracked sequences, joined in their order.
\<close>

definition closedFlushes :: "breakState \<Rightarrow> breakState \<Rightarrow> bool" where
  "closedFlushes st st' \<longleftrightarrow>
     bgUnclosed st' = bgUnclosed st
     \<and> (\<exists>added. lines st' = lines st @ added
           \<and> list_all (suffix [0x1B, 0x5B, 0x34, 0x39, 0x6D]) added
           \<and> (if added = [] then prefix (line st) (line st')
               else prefix (concat (bgUnclosed st)) (line st')))"

text \<open>\<^verbatim>\<open>str.substring(a, b)\<close> for \<open>a \<le> b\<close>.\<close>

definition piece :: "jsstring \<Rightarrow> nat \<Rightarrow> nat \<Rightarrow> jsstring" where
  "piece str a b = take (b - a) (drop a str)"

text \<open>The number of units and the width of the segment of a code point (lines 123 to 140).\<close>

definition segLen :: "int \<Rightarrow> nat" where
  "segLen code = (if isSurrogate code then 2 else 1)"

definition segWidth :: "int \<Rightarrow> int" where
  "segWidth code =
     (if isSurrogate code then 2
      else if isCombining code \<or> isControl code then 0
      else if isFullwidth code then 2 else 1)"

text \<open>
  The state of a scan that has met no ANSI sequence and pushed nothing: the units read so
  far are the line buffer.
\<close>

definition scanState :: "jsstring \<Rightarrow> int \<Rightarrow> breakState" where
  "scanState ln wd =
     \<lparr>lines = [], bgUnclosed = [], line = ln, lineWidth = wd, index = length ln, ansiMatch = None\<rparr>"

text \<open>
  The regular expressions find nothing in the normalised string \<open>str\<close>: no ANSI match
  in it, and each of its pieces without a line feed is left as it is by the normalisation
  of line breaks and holds no ANSI match either.
\<close>

definition plainText :: "regexes \<Rightarrow> jsstring \<Rightarrow> bool" where
  "plainText rx str \<longleftrightarrow>
     ansiConsecMatch rx str = None
     \<and> (\<forall>c. sublist c str \<and> 0x0A \<notin> set c \<longrightarrow>
            lineBreakReplace rx c = c \<and> ansiConsecMatch rx c = None)"

text \<open>A line that \<^verbatim>\<open>breakLine\<close> at width \<open>w\<close> returns as it is.\<close>

definition rewraps :: "regexes \<Rightarrow> int \<Rightarrow> jsstring \<Rightarrow> bool" where
  "rewraps rx w l \<longleftrightarrow> breakLine rx l (JInt w) None = [l]"

text \<open>
  A state of the scan of \<open>str\<close> with no ANSI match and no open background, whose line
  buffer is \<open>str[a..index)\<close>.
\<close>

definition plainScan :: "jsstring \<Rightarrow> nat \<Rightarrow> breakState \<Rightarrow> bool" where
  "plainScan str a u \<longleftrightarrow>
     ansiMatch u = None \<and> bgUnclosed u = [] \<and> a \<le> index u \<and> index u \<le> length str
     \<and> line u = piece str a (index u) \<and> 0x0A \<notin> set (line u)"

text \<open>
  What the rest of the scan from \<open>u\<close> adds to the output: first the line \<open>str[a..e)\<close>
  that the buffer grows into, which a scan of its own reads to its end without a push, then
  lines that are returned as they are when wrapped again.
\<close>

definition wrapsStably :: "regexes \<Rightarrow> int \<Rightarrow> jsstring \<Rightarrow> nat \<Rightarrow> breakState \<Rightarrow> bool" where
  "wrapsStably rx w str a u \<longleftrightarrow>
     (\<exists>e rest wd. index u \<le> e \<and> e \<le> length str
        \<and> lines (push (loop rx False 0 w str u)) = lines u @ piece str a e # rest
        \<and> 0x0A \<notin> set (piece str a e)
        \<and> loop rx False 0 w (piece str a e) (scanState (line u) (lineWidth u))
            = scanState (piece str a e) wd
        \<and> list_all (rewraps rx w) rest)"

section \<open>Properties\<close>

subsection \<open>The fields of the state through the steps\<close>

lemma lines_addSegment [simp]: "lines (addSegment seg st) = lines st"
  by (simp add: addSegment_def)

lemma lines_push: "lines (push st) = lines st @ [line st @ (if bgUnclosed st = [] then [] else BG_CLOSE)]"
  by (simp add: push_def)

lemma lineWidth_ansiStep [simp]: "lineWidth (snd (ansiStep rx str ansi st)) = lineWidth st"
  by (simp add: ansiStep_def Let_def searchAnsi_def split: option.splits)

lemma lineWidth_ansiPart [simp]: "lineWidth (snd (ansiPart rx str st)) = lineWidth st"
  by (simp add: ansiPart_def split: option.splits prod.splits)

lemma lineWidth_push [simp]: "lineWidth (push st) = 0"
  by (simp add: push_def)

lemma lines_ansiStep [simp]: "lines (snd (ansiStep rx str ansi st)) = lines st"
  by (simp add: ansiStep_def Let_def searchAnsi_def split: option.splits)


lemma push_index_update: "push (u\<lparr>index := i\<rparr>) = (push u)\<lparr>index := i\<rparr>"
  by (simp add: push_def)

lemma codePointAt_Some: "p < length str \<Longrightarrow> \<exists>code. codePointAt str p = Some code"
  by (simp add: codePointAt_def Let_def)

lemma codePointAt_Some_less: "codePointAt str i = Some cp \<Longrightarrow> i < length str"
  by (simp add: codePointAt_def split: if_splits)

subsection \<open>Runs of the loop that meet no ANSI sequence\<close>

text \<open>
  Once a search has failed the loop never searches again, so from a state with no match the
  regular expressions play no part.
\<close>

lemma ansiMatch_push [simp]: "ansiMatch (push st) = ansiMatch st"
  by (simp add: push_def)

lemma ansiMatch_breakDecision [simp]:
  "ansiMatch (snd (breakDecision trim tol maxWidth code seg st)) = ansiMatch st"
  by (simp add: breakDecision_def Let_def)

lemma ansiMatch_addSegment [simp]: "ansiMatch (addSegment seg st) = ansiMatch st"
  by (simp add: addSegment_def)

lemma ansiMatch_dashBreak [simp]: "ansiMatch (dashBreak maxWidth str code st) = ansiMatch st"
  by (simp add: dashBreak_def)

lemma ansiMatch_charStep [simp]: "ansiMatch (charStep trim tol maxWidth str code st) = ansiMatch st"
proof -
  obtain segment segmentWidth i where s: "segmentAt str (index st) code = (segment, segmentWidth, i)"
    by (cases "segmentAt str (index st) code") auto
  obtain seg' st' where d:
    "breakDecision trim tol maxWidth code (segment, segmentWidth) (st\<lparr>index := i\<rparr>) = (seg', st')"
    by (cases "breakDecision trim tol maxWidth code (segment, segmentWidth) (st\<lparr>index := i\<rparr>)") auto
  have "ansiMatch st' = ansiMatch st"
    using ansiMatch_breakDecision [of trim tol maxWidth code "(segment, segmentWidth)" "st\<lparr>index := i\<rparr>"] d
    by simp
  then show ?thesis by (simp add: charStep_def s d)
qed

lemma ansiMatch_codeStep [simp]: "ansiMatch (codeStep trim tol maxWidth str st) = ansiMatch st"
  by (simp add: codeStep_def split: option.splits)

lemma iteration_no_ansi:
  "ansiMatch st = None \<Longrightarrow> iteration rx trim tol maxWidth str st = (False, codeStep trim tol maxWidth str st)"
  by (simp add: iteration_def ansiPart_def)

lemma loop_no_ansi:
  "ansiMatch st = None \<Longrightarrow> loop rx trim tol maxWidth str st = loop rx' trim tol maxWidth str st"
proof (induction rx trim tol maxWidth str st rule: loop.induct)
  case (1 rx trim tol maxWidth str st)
  show ?case
  proof (cases "index st < length str")
    case False
    then show ?thesis by (simp add: loop.simps)
  next
    case True
    let ?st' = "codeStep trim tol maxWidth str st"
    have it: "iteration rx trim tol maxWidth str st = (False, ?st')"
      and it': "iteration rx' trim tol maxWidth str st = (False, ?st')"
      using "1.prems" by (simp_all add: iteration_no_ansi)
    have "loop rx trim tol maxWidth str (?st'\<lparr>index := index ?st' + 1\<rparr>)
        = loop rx' trim tol maxWidth str (?st'\<lparr>index := index ?st' + 1\<rparr>)"
      using "1.IH" [OF True it [symmetric]] "1.prems" by simp
    then show ?thesis
      using True it it' by (simp add: loop.simps [of rx _ _ _ _ st] loop.simps [of rx' _ _ _ _ st])
  qed
qed

lemma initState_no_ansi: "ansiConsecMatch rx str = None \<Longrightarrow> initState rx str = startState"
  by (simp add: initState_def searchAnsi_def startState_def)

lemma breakLine_no_ansi:
  assumes "str \<noteq> []" and "2 \<le> w" and "lineBreakReplace rx str = str"
    and "ansiConsecMatch rx str = None"
  shows "breakLine rx str (JInt w) opts =
    lines (push (loop rx' (optTrimBreak opts) (optTolerance opts) w str startState))"
  using assms loop_no_ansi [of startState rx _ _ w str rx']
  by (simp add: breakLine_def initState_no_ansi startState_def)

subsection \<open>The states at the head of the loop\<close>

lemma loop_pass:
  "index st < length str \<Longrightarrow> iteration rx trim tol maxWidth str st = (False, st') \<Longrightarrow>
   loop rx trim tol maxWidth str st = loop rx trim tol maxWidth str (st'\<lparr>index := index st' + 1\<rparr>)"
  by (subst loop.simps) simp

lemma loop_break:
  "index st < length str \<Longrightarrow> iteration rx trim tol maxWidth str st = (True, st') \<Longrightarrow>
   loop rx trim tol maxWidth str st = st'"
  by (subst loop.simps) simp

lemma loop_exit: "length str \<le> index st \<Longrightarrow> loop rx trim tol maxWidth str st = st"
  by (subst loop.simps) simp


subsection \<open>C1: the default wrap of "hello world" at width 5\<close>

lemma hello_world_default:
  "lines (push (loop modelRegexes (optTrimBreak None) (optTolerance None) 5 (utf16 ''hello world'') startState))
   = [utf16 ''hello'', utf16 '' worl'', utf16 ''d'']"
  by code_simp

text \<open>
  C1 (as amended). The claim gives \<^verbatim>\<open>["hello", " world"]\<close>. The space does force the break
  and is kept at the start of the second line, but that line then holds six columns at
  \<^verbatim>\<open>d\<close>, one more than \<^verbatim>\<open>maxWidth\<close>, and with tolerance 0 the loop breaks again: for
  every choice of the regular expressions that leave the text alone (no line break to
  normalise, no ANSI sequence found), \<^verbatim>\<open>breakLine("hello world", 5)\<close> is
  \<^verbatim>\<open>["hello", " worl", "d"]\<close>.
\<close>

theorem breakLine_hello_world_default:
  assumes "lineBreakReplace rx (utf16 ''hello world'') = utf16 ''hello world''"
    and "ansiConsecMatch rx (utf16 ''hello world'') = None"
  shows "breakLine rx (utf16 ''hello world'') (JInt 5) None
         = [utf16 ''hello'', utf16 '' worl'', utf16 ''d'']"
proof -
  have ne: "utf16 ''hello world'' \<noteq> []" by (simp add: utf16_def)
  show ?thesis
    using breakLine_no_ansi [OF ne _ assms, of 5 None modelRegexes] hello_world_default by simp
qed

text \<open>The hypotheses hold for the modelled regular expressions.\<close>

theorem breakLine_hello_world_default_witness:
  "lineBreakReplace modelRegexes (utf16 ''hello world'') = utf16 ''hello world''
   \<and> ansiConsecMatch modelRegexes (utf16 ''hello world'') = None
   \<and> breakLine modelRegexes (utf16 ''hello world'') (JInt 5) None
         = [utf16 ''hello'', utf16 '' worl'', utf16 ''d'']"
proof -
  have a: "lineBreakReplace modelRegexes (utf16 ''hello world'') = utf16 ''hello world''"
    by code_simp
  have b: "ansiConsecMatch modelRegexes (utf16 ''hello world'') = None"
    by code_simp
  show ?thesis using a b breakLine_hello_world_default [OF a b] by simp
qed

text \<open>C1 as stated fails: the result is not \<^verbatim>\<open>["hello", " world"]\<close>.\<close>

theorem breakLine_hello_world_default_counterexample:
  "breakLine modelRegexes (utf16 ''hello world'') (JInt 5) None \<noteq> [utf16 ''hello'', utf16 '' world'']"
  by code_simp

subsection \<open>C7: "hello world" at width 5 with trimBreak\<close>

lemma hello_world_trim:
  "lines (push (loop modelRegexes (optTrimBreak (Some \<lparr>tolerance = None, trimBreak = Some True\<rparr>))
      (optTolerance (Some \<lparr>tolerance = None, trimBreak = Some True\<rparr>)) 5 (utf16 ''hello world'') startState))
   = [utf16 ''hello'', utf16 ''world'']"
  by code_simp

text \<open>
  C7. With \<^verbatim>\<open>{trimBreak: true}\<close> the overflowing space is dropped: for every choice of the
  regular expressions that leave the text alone, \<^verbatim>\<open>breakLine("hello world", 5, {trimBreak:
  true})\<close> is \<^verbatim>\<open>["hello", "world"]\<close>.
\<close>

theorem breakLine_hello_world_trimBreak:
  assumes "lineBreakReplace rx (utf16 ''hello world'') = utf16 ''hello world''"
    and "ansiConsecMatch rx (utf16 ''hello world'') = None"
  shows "breakLine rx (utf16 ''hello world'') (JInt 5) (Some \<lparr>tolerance = None, trimBreak = Some True\<rparr>)
         = [utf16 ''hello'', utf16 ''world'']"
proof -
  have ne: "utf16 ''hello world'' \<noteq> []" by (simp add: utf16_def)
  show ?thesis
    using breakLine_no_ansi [OF ne _ assms, of 5 _ modelRegexes] hello_world_trim by simp
qed

theorem breakLine_hello_world_trimBreak_witness:
  "lineBreakReplace modelRegexes (utf16 ''hello world'') = utf16 ''hello world''
   \<and> ansiConsecMatch modelRegexes (utf16 ''hello world'') = None
   \<and> breakLine modelRegexes (utf16 ''hello world'') (JInt 5)
        (Some \<lparr>tolerance = None, trimBreak = Some True\<rparr>) = [utf16 ''hello'', utf16 ''world'']"
proof -
  have a: "lineBreakReplace modelRegexes (utf16 ''hello world'') = utf16 ''hello world''"
    by code_simp
  have b: "ansiConsecMatch modelRegexes (utf16 ''hello world'') = None"
    by code_simp
  show ?thesis using a b breakLine_hello_world_trimBreak [OF a b] by simp
qed

subsection \<open>C8: the guard, and what raises\<close>









subsection \<open>C2: the break decision\<close>

lemma abcdef_tolerance:
  "lines (push (loop modelRegexes (optTrimBreak (Some \<lparr>tolerance = Some 1, trimBreak = None\<rparr>))
      (optTolerance (Some \<lparr>tolerance = Some 1, trimBreak = None\<rparr>)) 3 (utf16 ''abcdef'') startState))
   = [utf16 ''abcd'', utf16 ''ef'']"
  by code_simp

lemma charStep_unfold:
  assumes "segmentAt str (index st) code = (segment, w, i)"
  shows "charStep trim tol maxWidth str code st =
     dashBreak maxWidth str code
       (addSegment (fst (breakDecision trim tol maxWidth code (segment, w) (st\<lparr>index := i\<rparr>)))
          (snd (breakDecision trim tol maxWidth code (segment, w) (st\<lparr>index := i\<rparr>))))"
  using assms by (simp add: charStep_def split: prod.splits)

lemma prefix_lines_dashBreak: "prefix (lines st) (lines (dashBreak maxWidth str code st))"
  by (simp add: dashBreak_def lines_push)

text \<open>
  C2. In the loop body for a character with code point \<open>code\<close>, segment \<open>segment\<close> of width
  \<open>w\<close> (read at the index, which becomes \<open>i\<close>), when the projected width
  \<open>lineWidth + w\<close> exceeds \<open>maxWidth\<close>:
  \<^item> a breaking space always pushes the current line before the segment is added (and the
    added segment is empty when \<open>trimBreak\<close> is set), whatever the tolerance;
  \<^item> any other character pushes the line before the segment is added when the projected
    width exceeds \<open>maxWidth + tol\<close>, and otherwise the segment is added to the current line
    with no push before it.
  In the first two cases the pushed line is the line as it was, without the segment.
  And \<^verbatim>\<open>breakLine("abcdef", 3, {tolerance: 1})\<close> is \<^verbatim>\<open>["abcd", "ef"]\<close>: the first line
  reaches width 4 before the break is forced.
\<close>

theorem breakLine_break_decision:
  assumes "segmentAt str (index st) code = (segment, w, i)"
    and "lineWidth st + w > maxWidth"
  shows "(isBreakingSpace code \<longrightarrow>
            charStep trim tol maxWidth str code st =
              dashBreak maxWidth str code
                (addSegment (if trim then ([], 0) else (segment, w)) (push (st\<lparr>index := i\<rparr>))))
       \<and> (\<not> isBreakingSpace code \<and> lineWidth st + w > maxWidth + tol \<longrightarrow>
            charStep trim tol maxWidth str code st =
              dashBreak maxWidth str code (addSegment (segment, w) (push (st\<lparr>index := i\<rparr>))))
       \<and> (\<not> isBreakingSpace code \<and> lineWidth st + w \<le> maxWidth + tol \<longrightarrow>
            charStep trim tol maxWidth str code st =
              dashBreak maxWidth str code (addSegment (segment, w) (st\<lparr>index := i\<rparr>)))
       \<and> (isBreakingSpace code \<or> lineWidth st + w > maxWidth + tol \<longrightarrow>
            prefix (lines st @ [line st @ (if bgUnclosed st = [] then [] else BG_CLOSE)])
              (lines (charStep trim tol maxWidth str code st)))
       \<and> (lineBreakReplace rx (utf16 ''abcdef'') = utf16 ''abcdef''
            \<and> ansiConsecMatch rx (utf16 ''abcdef'') = None \<longrightarrow>
            breakLine rx (utf16 ''abcdef'') (JInt 3) (Some \<lparr>tolerance = Some 1, trimBreak = None\<rparr>)
              = [utf16 ''abcd'', utf16 ''ef''])"
proof -
  have ne: "utf16 ''abcdef'' \<noteq> []" by (simp add: utf16_def)
  have ex: "lineBreakReplace rx (utf16 ''abcdef'') = utf16 ''abcdef''
            \<and> ansiConsecMatch rx (utf16 ''abcdef'') = None \<longrightarrow>
            breakLine rx (utf16 ''abcdef'') (JInt 3) (Some \<lparr>tolerance = Some 1, trimBreak = None\<rparr>)
              = [utf16 ''abcd'', utf16 ''ef'']"
    using breakLine_no_ansi [OF ne, of 3 rx _ modelRegexes] abcdef_tolerance by simp
  have a: "isBreakingSpace code \<longrightarrow>
            charStep trim tol maxWidth str code st =
              dashBreak maxWidth str code
                (addSegment (if trim then ([], 0) else (segment, w)) (push (st\<lparr>index := i\<rparr>)))"
    using assms(2) by (simp add: charStep_unfold [OF assms(1)] breakDecision_def)
  have b: "\<not> isBreakingSpace code \<and> lineWidth st + w > maxWidth + tol \<longrightarrow>
            charStep trim tol maxWidth str code st =
              dashBreak maxWidth str code (addSegment (segment, w) (push (st\<lparr>index := i\<rparr>)))"
    using assms(2) by (simp add: charStep_unfold [OF assms(1)] breakDecision_def)
  have c: "\<not> isBreakingSpace code \<and> lineWidth st + w \<le> maxWidth + tol \<longrightarrow>
            charStep trim tol maxWidth str code st =
              dashBreak maxWidth str code (addSegment (segment, w) (st\<lparr>index := i\<rparr>))"
    using assms(2) by (simp add: charStep_unfold [OF assms(1)] breakDecision_def)
  have p: "prefix (lines (push (st\<lparr>index := i\<rparr>)))
              (lines (dashBreak maxWidth str code (addSegment sg (push (st\<lparr>index := i\<rparr>)))))" for sg
    using prefix_lines_dashBreak [of "addSegment sg (push (st\<lparr>index := i\<rparr>))"] by simp
  have d: "isBreakingSpace code \<or> lineWidth st + w > maxWidth + tol \<longrightarrow>
            prefix (lines st @ [line st @ (if bgUnclosed st = [] then [] else BG_CLOSE)])
              (lines (charStep trim tol maxWidth str code st))"
  proof
    assume h: "isBreakingSpace code \<or> lineWidth st + w > maxWidth + tol"
    have l: "lines (push (st\<lparr>index := i\<rparr>))
               = lines st @ [line st @ (if bgUnclosed st = [] then [] else BG_CLOSE)]"
      by (simp add: lines_push)
    from h a b obtain sg where
      "charStep trim tol maxWidth str code st =
         dashBreak maxWidth str code (addSegment sg (push (st\<lparr>index := i\<rparr>)))"
      by blast
    with p [of sg] l
    show "prefix (lines st @ [line st @ (if bgUnclosed st = [] then [] else BG_CLOSE)])
              (lines (charStep trim tol maxWidth str code st))"
      by simp
  qed
  from a b c d ex show ?thesis by blast
qed

theorem breakLine_break_decision_witness:
  "segmentAt (utf16 ''ab cd'') 2 0x20 = (utf16 '' '', 1, 2)
   \<and> lineWidth (startState\<lparr>line := utf16 ''ab'', lineWidth := 2, index := 2\<rparr>) + 1 > 2
   \<and> isBreakingSpace 0x20
   \<and> charStep False 1 2 (utf16 ''ab cd'') 0x20 (startState\<lparr>line := utf16 ''ab'', lineWidth := 2, index := 2\<rparr>)
       = dashBreak 2 (utf16 ''ab cd'') 0x20
           (addSegment (utf16 '' '', 1) (push (startState\<lparr>line := utf16 ''ab'', lineWidth := 2, index := 2\<rparr>)))
   \<and> segmentAt (utf16 ''abcd'') 2 0x63 = (utf16 ''c'', 1, 2)
   \<and> \<not> isBreakingSpace 0x63
   \<and> charStep False 1 2 (utf16 ''abcd'') 0x63 (startState\<lparr>line := utf16 ''ab'', lineWidth := 2, index := 2\<rparr>)
       = dashBreak 2 (utf16 ''abcd'') 0x63
           (addSegment (utf16 ''c'', 1) (startState\<lparr>line := utf16 ''ab'', lineWidth := 2, index := 2\<rparr>))
   \<and> charStep False 0 2 (utf16 ''abcd'') 0x63 (startState\<lparr>line := utf16 ''ab'', lineWidth := 2, index := 2\<rparr>)
       = dashBreak 2 (utf16 ''abcd'') 0x63
           (addSegment (utf16 ''c'', 1) (push (startState\<lparr>line := utf16 ''ab'', lineWidth := 2, index := 2\<rparr>)))
   \<and> lineBreakReplace modelRegexes (utf16 ''abcdef'') = utf16 ''abcdef''
   \<and> ansiConsecMatch modelRegexes (utf16 ''abcdef'') = None
   \<and> breakLine modelRegexes (utf16 ''abcdef'') (JInt 3) (Some \<lparr>tolerance = Some 1, trimBreak = None\<rparr>)
       = [utf16 ''abcd'', utf16 ''ef'']"
proof -
  let ?S = "startState\<lparr>line := utf16 ''ab'', lineWidth := 2, index := 2\<rparr>"
  have i: "index ?S = 2" by simp
  have s1: "segmentAt (utf16 ''ab cd'') (index ?S) 0x20 = (utf16 '' '', 1, 2)"
    unfolding i by code_simp
  have s2: "segmentAt (utf16 ''abcd'') (index ?S) 0x63 = (utf16 ''c'', 1, 2)"
    unfolding i by code_simp
  have w: "lineWidth ?S + 1 > 2" by simp
  have sp: "isBreakingSpace 0x20" "\<not> isBreakingSpace 0x63" by (simp_all add: isBreakingSpace_def)
  have r1: "lineBreakReplace modelRegexes (utf16 ''abcdef'') = utf16 ''abcdef''" by code_simp
  have r2: "ansiConsecMatch modelRegexes (utf16 ''abcdef'') = None" by code_simp
  show ?thesis
    using breakLine_break_decision [OF s1 w, of False 1 modelRegexes]
      breakLine_break_decision [OF s2 w, of False 1 modelRegexes]
      breakLine_break_decision [OF s2 w, of False 0 modelRegexes]
      s1 s2 sp r1 r2
    by simp
qed

subsection \<open>C3: a background reset in the middle of a run\<close>

lemma lastIndexOf_snoc: "lastIndexOf (ys @ [x]) x = int (length ys)"
  by (induction ys) (simp_all add: Let_def)

text \<open>
  When the reset is the last background sequence of the run, the list is emptied: this is
  the branch of line 92.
\<close>

lemma trackBg_reset_last: "trackBg (bgs @ [BG_CLOSE]) unclosed = []"
proof -
  have "nat (lastIndexOf (bgs @ [BG_CLOSE]) BG_CLOSE + 1) = length (bgs @ [BG_CLOSE])"
    by (simp add: lastIndexOf_snoc nat_add_distrib)
  then show ?thesis by (simp add: trackBg_def Let_def)
qed

text \<open>
  C3 fails on the code. When a background sequence follows the reset within the run, the
  branch of lines 95 to 97 appends the sequences after the reset and leaves the sequences
  tracked before the run in the list: after \<^verbatim>\<open>ESC[41m\<close> was tracked, the run
  \<^verbatim>\<open>ESC[49m ESC[42m\<close> leaves \<^verbatim>\<open>[ESC[41m, ESC[42m]\<close>, not \<^verbatim>\<open>[ESC[42m]\<close>. In
  \<^verbatim>\<open>breakLine("\x1B[41ma\x1B[49m\x1B[42mbcd", 2)\<close> the second line therefore reopens both
  colours.
\<close>

theorem trackBg_reset_then_open:
  "trackBg [BG_CLOSE, [0x1B, 0x5B, 0x34, 0x32, 0x6D]] [[0x1B, 0x5B, 0x34, 0x31, 0x6D]]
     = [[0x1B, 0x5B, 0x34, 0x31, 0x6D], [0x1B, 0x5B, 0x34, 0x32, 0x6D]]
   \<and> breakLine modelRegexes
        ([0x1B, 0x5B, 0x34, 0x31, 0x6D] @ utf16 ''a'' @ BG_CLOSE @ [0x1B, 0x5B, 0x34, 0x32, 0x6D] @ utf16 ''bcd'')
        (JInt 2) None
     = [[0x1B, 0x5B, 0x34, 0x31, 0x6D] @ utf16 ''a'' @ BG_CLOSE @ [0x1B, 0x5B, 0x34, 0x32, 0x6D] @ utf16 ''b'' @ BG_CLOSE,
        [0x1B, 0x5B, 0x34, 0x31, 0x6D] @ [0x1B, 0x5B, 0x34, 0x32, 0x6D] @ utf16 ''cd'' @ BG_CLOSE]"
  by code_simp

subsection \<open>C6: code points above 0xFFFF in stringWidth\<close>

lemma surrogate_not_control: "isSurrogate cp \<Longrightarrow> \<not> isControl cp \<and> \<not> isCombining cp"
  by (simp add: isSurrogate_def isControl_def isCombining_def)

lemma widthLoop_surrogate:
  assumes "codePointAt str i = Some cp" and "cp > 0xFFFF"
  shows "widthLoop str i width = widthLoop str (i + 2) (width + (if isFullwidth cp then 3 else 2))"
proof -
  have s: "isSurrogate cp" using assms(2) by (simp add: isSurrogate_def)
  have l: "i < length str" using assms(1) by (rule codePointAt_Some_less)
  show ?thesis
    using assms(1) s l surrogate_not_control [OF s]
    by (subst widthLoop.simps) (simp add: add.commute)
qed

lemma widthLoop_end: "length str \<le> i \<Longrightarrow> widthLoop str i width = width"
  by (subst widthLoop.simps) simp

text \<open>
  C6. In the loop of \<^verbatim>\<open>stringWidth\<close>, a code point above 0xFFFF at the index adds 2 to the
  width, or 3 when it is fullwidth (as all of 0x20000 to 0x3FFFD are), and the loop goes on
  two units later: the low surrogate is consumed and adds nothing. So a string that is one
  such pair, and that \<^verbatim>\<open>stripAnsi\<close> leaves alone, has width 2 or 3.
\<close>

theorem stringWidth_astral:
  assumes "codePointAt str i = Some cp" and "cp > 0xFFFF"
  shows "widthLoop str i width = widthLoop str (i + 2) (width + (if isFullwidth cp then 3 else 2))
       \<and> (0x20000 \<le> cp \<and> cp \<le> 0x3FFFD \<longrightarrow>
            widthLoop str i width = widthLoop str (i + 2) (width + 3))
       \<and> (i = 0 \<and> length str = 2 \<and> stripAnsi rx str = str \<longrightarrow>
            stringWidth rx (JString str) = (if isFullwidth cp then 3 else 2))"
proof -
  note step = widthLoop_surrogate [OF assms]
  have full: "0x20000 \<le> cp \<and> cp \<le> 0x3FFFD \<longrightarrow> isFullwidth cp"
    by (simp add: isFullwidth_def)
  have whole: "i = 0 \<and> length str = 2 \<and> stripAnsi rx str = str \<longrightarrow>
            stringWidth rx (JString str) = (if isFullwidth cp then 3 else 2)"
  proof
    assume h: "i = 0 \<and> length str = 2 \<and> stripAnsi rx str = str"
    then have "widthLoop str 0 0 = widthLoop str 2 (if isFullwidth cp then 3 else 2)"
      using step [of 0] by (simp add: numeral_2_eq_2)
    also have "\<dots> = (if isFullwidth cp then 3 else 2)"
      using h by (simp add: widthLoop_end)
    finally show "stringWidth rx (JString str) = (if isFullwidth cp then 3 else 2)"
      using h by (auto simp: stringWidth_def)
  qed
  from step full whole show ?thesis by simp
qed

theorem stringWidth_astral_witness:
  "codePointAt [0xD83D, 0xDE00] 0 = Some 0x1F600 \<and> (0x1F600 :: int) > 0xFFFF
   \<and> stripAnsi modelRegexes [0xD83D, 0xDE00] = [0xD83D, 0xDE00]
   \<and> stringWidth modelRegexes (JString [0xD83D, 0xDE00]) = 2
   \<and> codePointAt [0xD840, 0xDC00] 0 = Some 0x20000 \<and> (0x20000 :: int) > 0xFFFF
   \<and> stripAnsi modelRegexes [0xD840, 0xDC00] = [0xD840, 0xDC00]
   \<and> stringWidth modelRegexes (JString [0xD840, 0xDC00]) = 3"
proof -
  have a: "codePointAt [0xD83D, 0xDE00] 0 = Some 0x1F600" by code_simp
  have b: "codePointAt [0xD840, 0xDC00] 0 = Some 0x20000" by code_simp
  have c: "stripAnsi modelRegexes [0xD83D, 0xDE00] = [0xD83D, 0xDE00]" by code_simp
  have d: "stripAnsi modelRegexes [0xD840, 0xDC00] = [0xD840, 0xDC00]" by code_simp
  have e: "\<not> isFullwidth 0x1F600" "isFullwidth 0x20000" by (simp_all add: isFullwidth_def)
  show ?thesis
    using stringWidth_astral [OF a, of 0 modelRegexes] stringWidth_astral [OF b, of 0 modelRegexes]
      a b c d e
    by simp
qed

subsection \<open>C9: stringWidth and stripAnsi\<close>

text \<open>
  C9 (as amended). \<^verbatim>\<open>stringWidth\<close> of the empty string and of a value that is not a
  string is 0. \<^verbatim>\<open>stringWidth(s)\<close> strips \<^verbatim>\<open>s\<close> once and measures what is left, and
  \<^verbatim>\<open>stringWidth(stripAnsi(s))\<close> strips twice; the two agree for every \<^verbatim>\<open>s\<close> whose stripped
  form holds no further sequence (a second strip changes nothing). The empty string is
  assumed to be stripped to itself.
\<close>

theorem stringWidth_stripAnsi:
  "stringWidth rx (JString []) = 0
   \<and> stringWidth rx JNotAString = 0
   \<and> (stripAnsi rx [] = [] \<and> stripAnsi rx (stripAnsi rx s) = stripAnsi rx s \<longrightarrow>
        stringWidth rx (JString s) = stringWidth rx (JString (stripAnsi rx s)))"
  by (simp add: stringWidth_def Let_def)

theorem stringWidth_stripAnsi_witness:
  "stripAnsi modelRegexes [] = []
   \<and> stripAnsi modelRegexes (stripAnsi modelRegexes ([0x1B, 0x5B, 0x34, 0x31, 0x6D] @ utf16 ''ab''))
       = stripAnsi modelRegexes ([0x1B, 0x5B, 0x34, 0x31, 0x6D] @ utf16 ''ab'')
   \<and> stringWidth modelRegexes (JString ([0x1B, 0x5B, 0x34, 0x31, 0x6D] @ utf16 ''ab''))
       = stringWidth modelRegexes (JString (stripAnsi modelRegexes ([0x1B, 0x5B, 0x34, 0x31, 0x6D] @ utf16 ''ab'')))
   \<and> stringWidth modelRegexes (JString ([0x1B, 0x5B, 0x34, 0x31, 0x6D] @ utf16 ''ab'')) = 2"
proof -
  have a: "stripAnsi modelRegexes [] = []" by code_simp
  have b: "stripAnsi modelRegexes (stripAnsi modelRegexes ([0x1B, 0x5B, 0x34, 0x31, 0x6D] @ utf16 ''ab''))
       = stripAnsi modelRegexes ([0x1B, 0x5B, 0x34, 0x31, 0x6D] @ utf16 ''ab'')" by code_simp
  have c: "stringWidth modelRegexes (JString ([0x1B, 0x5B, 0x34, 0x31, 0x6D] @ utf16 ''ab'')) = 2"
    by code_simp
  show ?thesis
    using stringWidth_stripAnsi [of modelRegexes "[0x1B, 0x5B, 0x34, 0x31, 0x6D] @ utf16 ''ab''"] a b c
    by simp
qed

text \<open>
  C9 as stated fails: stripping \<^verbatim>\<open>ESC[\<close> \<^verbatim>\<open>ESC[0m\<close> \<^verbatim>\<open>0m\<close> removes the inner sequence and
  leaves \<^verbatim>\<open>ESC[0m\<close>, which \<^verbatim>\<open>stringWidth\<close> measures as 3 columns (the control character
  counts 0), while \<^verbatim>\<open>stringWidth\<close> of that stripped string strips it again, to nothing.
\<close>

theorem stringWidth_stripAnsi_counterexample:
  "stringWidth modelRegexes (JString ([0x1B, 0x5B] @ [0x1B, 0x5B, 0x30, 0x6D] @ utf16 ''0m''))
   \<noteq> stringWidth modelRegexes
       (JString (stripAnsi modelRegexes ([0x1B, 0x5B] @ [0x1B, 0x5B, 0x30, 0x6D] @ utf16 ''0m'')))"
  by code_simp

subsection \<open>C10: the running width stays within the budget\<close>

lemma segmentAt_width: "segmentAt str i code = (seg, w, j) \<Longrightarrow> w \<le> 2"
  by (auto simp: segmentAt_def split: if_splits)

lemma lineWidth_added:
  assumes "2 \<le> maxWidth" and "0 \<le> tol" and "lineWidth st \<le> maxWidth + tol" and "w \<le> 2"
    and "breakDecision trim tol maxWidth code (seg, w) st = (seg', st')"
  shows "lineWidth (addSegment seg' st') \<le> maxWidth + tol"
proof (cases "lineWidth st + w > maxWidth")
  case False
  with assms show ?thesis by (auto simp: breakDecision_def addSegment_def)
next
  case over: True
  show ?thesis
  proof (cases "isBreakingSpace code \<or> lineWidth st + w > maxWidth + tol")
    case True
    with over assms(5) have "st' = push st" and "snd seg' \<le> w \<or> snd seg' = 0"
      by (auto simp: breakDecision_def Let_def split: if_splits)
    with assms(1,2,4) show ?thesis by (auto simp: addSegment_def)
  next
    case False
    with over assms(5) have "st' = st" and "seg' = (seg, w)"
      by (auto simp: breakDecision_def Let_def split: if_splits)
    with False show ?thesis by (simp add: addSegment_def)
  qed
qed

lemma lineWidth_dashBreak:
  "0 \<le> b \<Longrightarrow> lineWidth st \<le> b \<Longrightarrow> lineWidth (dashBreak maxWidth str code st) \<le> b"
  by (simp add: dashBreak_def)

lemma lineWidth_charStep:
  assumes "2 \<le> maxWidth" and "0 \<le> tol" and "lineWidth st \<le> maxWidth + tol"
  shows "lineWidth (charStep trim tol maxWidth str code st) \<le> maxWidth + tol"
proof -
  obtain seg w i where s: "segmentAt str (index st) code = (seg, w, i)"
    by (cases "segmentAt str (index st) code") auto
  obtain seg' st' where d: "breakDecision trim tol maxWidth code (seg, w) (st\<lparr>index := i\<rparr>) = (seg', st')"
    by (cases "breakDecision trim tol maxWidth code (seg, w) (st\<lparr>index := i\<rparr>)") auto
  have "lineWidth (addSegment seg' st') \<le> maxWidth + tol"
    using lineWidth_added [OF assms(1,2) _ segmentAt_width [OF s] d] assms(3) by simp
  then have "lineWidth (dashBreak maxWidth str code (addSegment seg' st')) \<le> maxWidth + tol"
    using assms(1,2) by (intro lineWidth_dashBreak) simp_all
  then show ?thesis by (simp add: charStep_def s d)
qed

lemma lineWidth_codeStep:
  assumes "2 \<le> maxWidth" and "0 \<le> tol" and "lineWidth st \<le> maxWidth + tol"
  shows "lineWidth (codeStep trim tol maxWidth str st) \<le> maxWidth + tol"
  using assms lineWidth_charStep [OF assms]
  by (simp add: codeStep_def split: option.splits)

lemma lineWidth_iteration:
  assumes "2 \<le> maxWidth" and "0 \<le> tol" and "lineWidth st \<le> maxWidth + tol"
  shows "lineWidth (snd (iteration rx trim tol maxWidth str st)) \<le> maxWidth + tol"
proof -
  obtain b st1 where r: "ansiPart rx str st = (b, st1)" by (cases "ansiPart rx str st")
  have w1: "lineWidth st1 \<le> maxWidth + tol"
    using lineWidth_ansiPart [of rx str st] r assms(3) by simp
  show ?thesis
    using r w1 lineWidth_codeStep [OF assms(1,2) w1]
    by (cases b) (simp_all add: iteration_def)
qed

lemma lineWidth_reachable:
  assumes "2 \<le> maxWidth" and "0 \<le> tol"
  shows "reachable rx trim tol maxWidth str st \<Longrightarrow> lineWidth st \<le> maxWidth + tol"
proof (induction rule: reachable.induct)
  case start
  from assms show ?case by (simp add: initState_def searchAnsi_def startState_def)
next
  case (pass st st')
  then show ?case
    using lineWidth_iteration [OF assms, of st rx trim str] by simp
qed

lemma lineWidth_loop:
  "2 \<le> maxWidth \<Longrightarrow> 0 \<le> tol \<Longrightarrow> lineWidth st \<le> maxWidth + tol \<Longrightarrow>
   lineWidth (loop rx trim tol maxWidth str st) \<le> maxWidth + tol"
proof (induction rx trim tol maxWidth str st rule: loop.induct)
  case (1 rx trim tol maxWidth str st)
  show ?case
  proof (cases "index st < length str")
    case False
    with "1.prems" show ?thesis by (simp add: loop_exit)
  next
    case True
    obtain b st' where it: "iteration rx trim tol maxWidth str st = (b, st')"
      by (cases "iteration rx trim tol maxWidth str st")
    have w: "lineWidth st' \<le> maxWidth + tol"
      using lineWidth_iteration [OF "1.prems"(1,2) "1.prems"(3), of rx trim str] it by simp
    show ?thesis
    proof (cases b)
      case True
      with it \<open>index st < length str\<close> w show ?thesis by (simp add: loop_break)
    next
      case False
      have "lineWidth (loop rx trim tol maxWidth str (st'\<lparr>index := index st' + 1\<rparr>)) \<le> maxWidth + tol"
        using "1.IH" [OF True it [symmetric]] False w "1.prems"(1,2) by simp
      with it False True show ?thesis by (simp add: loop_pass)
    qed
  qed
qed

text \<open>
  C10. Let \<open>str\<close> be the normalised string, \<open>maxWidth\<close> at least 2 and the tolerance not
  negative. The running width is at most \<open>maxWidth + tol\<close> at each of the four places
  where a line is pushed:
  \<^item> in every state \<open>st\<close> at the head of the loop, and after the ANSI part of the pass, which
    adds no width: this is the width of the line pushed at a line break (line 114) and at
    the break decision (line 150);
  \<^item> after the segment is added, which is the width of the line pushed after a dash
    (line 159), and after the whole pass;
  \<^item> when the loop has ended, which is the width of the line pushed at the end of the input
    (line 163).
  The width is the one the loop assigns: 2 for a surrogate pair, 0 for a combining or
  control character, 2 for a fullwidth character, 0 for an ANSI run, 1 otherwise.
\<close>

theorem lineWidth_within_budget:
  assumes "2 \<le> maxWidth" and "0 \<le> tol" and "reachable rx trim tol maxWidth str st"
  shows "lineWidth st \<le> maxWidth + tol
       \<and> lineWidth (snd (ansiPart rx str st)) \<le> maxWidth + tol
       \<and> (segmentAt str (index (snd (ansiPart rx str st))) code = (seg, w, i)
            \<and> breakDecision trim tol maxWidth code (seg, w) ((snd (ansiPart rx str st))\<lparr>index := i\<rparr>)
                = (seg', st')
            \<longrightarrow> lineWidth (addSegment seg' st') \<le> maxWidth + tol)
       \<and> lineWidth (snd (iteration rx trim tol maxWidth str st)) \<le> maxWidth + tol
       \<and> lineWidth (loop rx trim tol maxWidth str (initState rx str)) \<le> maxWidth + tol"
proof -
  have a: "lineWidth st \<le> maxWidth + tol"
    using lineWidth_reachable [OF assms] .
  then have b: "lineWidth (snd (ansiPart rx str st)) \<le> maxWidth + tol" by simp
  have c: "segmentAt str (index (snd (ansiPart rx str st))) code = (seg, w, i)
            \<and> breakDecision trim tol maxWidth code (seg, w) ((snd (ansiPart rx str st))\<lparr>index := i\<rparr>)
                = (seg', st')
            \<longrightarrow> lineWidth (addSegment seg' st') \<le> maxWidth + tol"
  proof
    assume h: "segmentAt str (index (snd (ansiPart rx str st))) code = (seg, w, i)
            \<and> breakDecision trim tol maxWidth code (seg, w) ((snd (ansiPart rx str st))\<lparr>index := i\<rparr>)
                = (seg', st')"
    then have "w \<le> 2" using segmentAt_width by blast
    with h b show "lineWidth (addSegment seg' st') \<le> maxWidth + tol"
      using lineWidth_added [OF assms(1,2), of "(snd (ansiPart rx str st))\<lparr>index := i\<rparr>" w trim code seg seg' st']
      by simp
  qed
  have d: "lineWidth (snd (iteration rx trim tol maxWidth str st)) \<le> maxWidth + tol"
    using lineWidth_iteration [OF assms(1,2) a] .
  have "lineWidth (initState rx str) \<le> maxWidth + tol"
    using lineWidth_reachable [OF assms(1,2) reachable.start] .
  then have e: "lineWidth (loop rx trim tol maxWidth str (initState rx str)) \<le> maxWidth + tol"
    using lineWidth_loop [OF assms(1,2)] by blast
  from a b c d e show ?thesis by blast
qed

theorem lineWidth_within_budget_witness:
  "(2::int) \<le> 3 \<and> (0::int) \<le> 1
   \<and> reachable modelRegexes False 1 3 (utf16 ''abcdef'')
        \<lparr>lines = [], bgUnclosed = [], line = utf16 ''a'', lineWidth = 1, index = 1, ansiMatch = None\<rparr>
   \<and> lineWidth \<lparr>lines = [], bgUnclosed = [], line = utf16 ''a'', lineWidth = 1, index = 1, ansiMatch = None\<rparr>
        \<le> (3::int) + 1
   \<and> lineWidth (loop modelRegexes False 1 3 (utf16 ''abcdef'') (initState modelRegexes (utf16 ''abcdef'')))
        \<le> 3 + 1
   \<and> breakLine modelRegexes (utf16 ''abcdef'') (JInt 3) (Some \<lparr>tolerance = Some 1, trimBreak = None\<rparr>)
        = [utf16 ''abcd'', utf16 ''ef'']"
proof -
  let ?s = "utf16 ''abcdef''"
  let ?st = "\<lparr>lines = [], bgUnclosed = [], line = utf16 ''a'', lineWidth = 1, index = 0, ansiMatch = None\<rparr>"
  have l: "index (initState modelRegexes ?s) < length ?s" by code_simp
  have it: "iteration modelRegexes False 1 3 ?s (initState modelRegexes ?s) = (False, ?st)"
    by code_simp
  have r: "reachable modelRegexes False 1 3 ?s (?st\<lparr>index := index ?st + 1\<rparr>)"
    using reachable.pass [OF reachable.start l it] .
  have r': "reachable modelRegexes False 1 3 ?s
        \<lparr>lines = [], bgUnclosed = [], line = utf16 ''a'', lineWidth = 1, index = 1, ansiMatch = None\<rparr>"
    using r by simp
  have b: "breakLine modelRegexes ?s (JInt 3) (Some \<lparr>tolerance = Some 1, trimBreak = None\<rparr>)
        = [utf16 ''abcd'', utf16 ''ef'']" by code_simp
  show ?thesis
    using lineWidth_within_budget [OF _ _ r', of ] r' b by simp
qed

subsection \<open>C4: flushing with an open background, and whole ANSI runs\<close>

lemma carries_refl [simp]: "carries st st"
  by (simp add: carries_def)

lemma carries_same: "lines st' = lines st \<Longrightarrow> prefix (line st) (line st') \<Longrightarrow> carries st st'"
  by (simp add: carries_def)














lemma closedFlushes_refl [simp]: "closedFlushes st st"
  unfolding closedFlushes_def by (intro conjI exI [of _ "[]"]) simp_all












subsection \<open>C5: wrapping the wrapped lines again\<close>

text \<open>
  C5 as stated fails. \<^verbatim>\<open>breakLine("\x1B[41mab-cd", 3)\<close> breaks after the dash and closes the
  background: its first line is \<^verbatim>\<open>ESC[41m ab- ESC[49m\<close>. Wrapped again, that line still
  reaches width 3 at the dash, and the dash is no longer the last unit of the string (the
  closing sequence follows it), so line 156 pushes once more and a line that holds only
  \<^verbatim>\<open>ESC[41m ESC[49m\<close> appears.
\<close>

theorem breakLines_idempotent_counterexample:
  "breakLines modelRegexes
     (breakLine modelRegexes ([0x1B, 0x5B, 0x34, 0x31, 0x6D] @ utf16 ''ab-cd'') (JInt 3) None) (JInt 3)
   \<noteq> breakLine modelRegexes ([0x1B, 0x5B, 0x34, 0x31, 0x6D] @ utf16 ''ab-cd'') (JInt 3) None"
  by code_simp

lemma length_piece: "b \<le> length str \<Longrightarrow> length (piece str a b) = b - a"
  by (simp add: piece_def)

lemma piece_empty [simp]: "piece str a a = []"
  by (simp add: piece_def)

lemma piece_append:
  "a \<le> b \<Longrightarrow> b \<le> c \<Longrightarrow> piece str a b @ piece str b c = piece str a c"
proof -
  assume ab: "a \<le> b" and bc: "b \<le> c"
  have "take (b - a) (drop a str) @ take (c - b) (drop (b - a) (drop a str))
        = take ((b - a) + (c - b)) (drop a str)"
    by (simp add: take_add)
  with ab bc show ?thesis by (simp add: piece_def)
qed

lemma piece_nth: "k < b - a \<Longrightarrow> b \<le> length str \<Longrightarrow> piece str a b ! k = str ! (a + k)"
  by (simp add: piece_def)

lemma sublist_piece: "sublist (piece str a b) str"
proof -
  have "take (b - a) (drop a str) @ drop (b - a) (drop a str) = drop a str"
    by (rule append_take_drop_id)
  then have "str = take a str @ take (b - a) (drop a str) @ drop (b - a) (drop a str)"
    by (simp del: drop_drop)
  then show ?thesis unfolding piece_def sublist_def by blast
qed

lemma take_drop_piece:
  "k + m \<le> b - a \<Longrightarrow> take m (drop k (piece str a b)) = take m (drop (a + k) str)"
  by (simp add: piece_def drop_take min_def add.commute)

lemma segmentAt_eq:
  "segmentAt str p code = (take (segLen code) (drop p str), segWidth code, p + (segLen code - 1))"
  by (simp add: segmentAt_def segLen_def segWidth_def)

lemma segWidth_le: "segWidth code \<le> 2"
  by (simp add: segWidth_def)

lemma uint_unit16_le: "uint (u :: unit16) \<le> 0xFFFF"
  using uint_bounded [of u] by simp

lemma codePointAt_cases:
  assumes "codePointAt str p = Some code"
  obtains (pair) "p + 1 < length str" "code > 0xFFFF"
      "0xD800 \<le> uint (str ! p)" "uint (str ! p) \<le> 0xDBFF"
      "0xDC00 \<le> uint (str ! (p + 1))" "uint (str ! (p + 1)) \<le> 0xDFFF"
      "code = (uint (str ! p) - 0xD800) * 0x400 + (uint (str ! (p + 1)) - 0xDC00) + 0x10000"
    | (single) "p < length str" "code = uint (str ! p)" "code \<le> 0xFFFF"
      "\<not> (0xD800 \<le> uint (str ! p) \<and> uint (str ! p) \<le> 0xDBFF \<and> p + 1 < length str
          \<and> 0xDC00 \<le> uint (str ! (p + 1)) \<and> uint (str ! (p + 1)) \<le> 0xDFFF)"
proof -
  have l: "p < length str" using assms by (simp add: codePointAt_def split: if_splits)
  show thesis
  proof (cases "0xD800 \<le> uint (str ! p) \<and> uint (str ! p) \<le> 0xDBFF \<and> p + 1 < length str
          \<and> 0xDC00 \<le> uint (str ! (p + 1)) \<and> uint (str ! (p + 1)) \<le> 0xDFFF")
    case True
    then have c: "code = (uint (str ! p) - 0xD800) * 0x400 + (uint (str ! (p + 1)) - 0xDC00) + 0x10000"
      using assms l by (simp add: codePointAt_def Let_def)
    with True have "code > 0xFFFF" by simp
    with True c show thesis by (intro pair) simp_all
  next
    case False
    then have c: "code = uint (str ! p)"
      using assms l by (auto simp: codePointAt_def Let_def split: if_splits)
    with False l uint_unit16_le [of "str ! p"] show thesis by (intro single) simp_all
  qed
qed

lemma codePointAt_segLen: "codePointAt str p = Some code \<Longrightarrow> p + segLen code \<le> length str"
  by (erule codePointAt_cases) (simp_all add: segLen_def isSurrogate_def)

lemma segment_no_newline:
  assumes "codePointAt str p = Some code" and "code \<noteq> 0x0A"
  shows "0x0A \<notin> set (piece str p (p + segLen code))"
  using assms(1)
proof (cases rule: codePointAt_cases)
  case pair
  have "piece str p (p + 2) = [str ! p, str ! (p + 1)]"
    using pair(1) by (simp add: piece_def take_Suc_conv_app_nth numeral_2_eq_2)
  moreover have "str ! p \<noteq> 0x0A" "str ! (p + 1) \<noteq> 0x0A"
    using pair(3,5) by auto
  ultimately show ?thesis using pair(2) by (simp add: segLen_def isSurrogate_def)
next
  case single
  have "piece str p (p + 1) = [str ! p]"
    using single(1) by (simp add: piece_def take_Suc_conv_app_nth)
  moreover have "str ! p \<noteq> 0x0A" using single(2) assms(2) by auto
  ultimately show ?thesis using single(3) by (simp add: segLen_def isSurrogate_def)
qed

lemma codePointAt_piece:
  assumes "codePointAt str p = Some code" and "a \<le> p" and "p + segLen code \<le> b"
    and "b \<le> length str"
  shows "codePointAt (piece str a b) (p - a) = Some code"
  using assms(1)
proof (cases rule: codePointAt_cases)
  case pair
  then have b2: "p + 2 \<le> b" using assms(3) by (simp add: segLen_def isSurrogate_def)
  have n0: "piece str a b ! (p - a) = str ! p"
    using piece_nth [of "p - a" b a str] assms(2,4) b2 by simp
  have n1: "piece str a b ! (p - a + 1) = str ! (p + 1)"
    using piece_nth [of "p - a + 1" b a str] assms(2,4) b2 by simp
  have l: "p - a + 1 < length (piece str a b)"
    using assms(2,4) b2 by (simp add: length_piece)
  show ?thesis
    using pair l n0 n1 by (simp add: codePointAt_def Let_def)
next
  case single
  then have b1: "p + 1 \<le> b" using assms(3) by (simp add: segLen_def isSurrogate_def)
  have n0: "piece str a b ! (p - a) = str ! p"
    using piece_nth [of "p - a" b a str] assms(2,4) b1 by simp
  have l: "p - a < length (piece str a b)"
    using assms(2,4) b1 by (simp add: length_piece)
  have n1: "p - a + 1 < length (piece str a b) \<Longrightarrow> piece str a b ! (p - a + 1) = str ! (p + 1)"
    using piece_nth [of "p - a + 1" b a str] assms(2,4) by (simp add: length_piece)
  have l1: "p - a + 1 < length (piece str a b) \<Longrightarrow> p + 1 < length str"
    using assms(2,4) by (simp add: length_piece)
  show ?thesis
    using single l n0 n1 l1 by (auto simp: codePointAt_def Let_def)
qed

lemma scanState_start: "scanState [] 0 = startState"
  by (simp add: scanState_def startState_def)

lemma loop_scanState_done: "loop rx trim tol w l (scanState l wd) = scanState l wd"
  by (simp add: loop_exit scanState_def)

lemma codeStep_newline:
  "codePointAt str (index u) = Some 0x0A \<Longrightarrow> codeStep trim tol w str u = push u"
  by (simp add: codeStep_def)

lemma codeStep_char:
  "codePointAt str (index u) = Some code \<Longrightarrow> code \<noteq> 0x0A \<Longrightarrow>
   codeStep trim tol w str u = charStep trim tol w str code u"
  by (simp add: codeStep_def)

lemma charStep_fit:
  assumes "lineWidth u + segWidth code \<le> w"
  shows "charStep False 0 w str code u =
     dashBreak w str code
       (addSegment (take (segLen code) (drop (index u) str), segWidth code)
          (u\<lparr>index := index u + (segLen code - 1)\<rparr>))"
  using assms by (simp add: charStep_def segmentAt_eq breakDecision_def)

lemma charStep_over:
  assumes "lineWidth u + segWidth code > w"
  shows "charStep False 0 w str code u =
     dashBreak w str code
       (addSegment (take (segLen code) (drop (index u) str), segWidth code)
          (push (u\<lparr>index := index u + (segLen code - 1)\<rparr>)))"
  using assms by (simp add: charStep_def segmentAt_eq breakDecision_def)

lemma charStep_over_push:
  assumes "2 \<le> w" and "lineWidth u + segWidth code > w"
  shows "charStep False 0 w str code u = charStep False 0 w str code (push u)"
proof -
  have "lineWidth (push u) + segWidth code \<le> w"
    using assms(1) segWidth_le [of code] by simp
  from charStep_fit [OF this] charStep_over [OF assms(2)]
  show ?thesis by (simp add: push_index_update)
qed

lemma segLen_pos: "0 < segLen code"
  by (simp add: segLen_def)

lemma take_segment_piece: "take (segLen code) (drop p str) = piece str p (p + segLen code)"
  by (simp add: piece_def)

text \<open>
  One pass of a scan of the piece \<open>str[a..b)\<close> that has read \<open>str[a..p)\<close>, when the
  segment at \<open>p\<close> fits and no dash break follows it.
\<close>

lemma rescan_pass:
  assumes cp: "codePointAt str p = Some code" and nl: "code \<noteq> 0x0A"
    and ap: "a \<le> p" and pb: "p + segLen code \<le> b" and bl: "b \<le> length str"
    and fit: "lw + segWidth code \<le> w"
    and nodash: "\<not> (lw + segWidth code \<ge> w \<and> isBreakingDash code) \<or> p + segLen code = b"
  shows "loop rx False 0 w (piece str a b) (scanState (piece str a p) lw)
       = loop rx False 0 w (piece str a b) (scanState (piece str a (p + segLen code)) (lw + segWidth code))"
proof -
  let ?l = "piece str a b"
  let ?t = "scanState (piece str a p) lw"
  have pl: "p \<le> length str" using pb bl by simp
  have it: "index ?t = p - a" using pl by (simp add: scanState_def length_piece)
  have ll: "length ?l = b - a" using bl by (simp add: length_piece)
  have lt: "index ?t < length ?l" using it ll ap pb segLen_pos [of code] by simp
  have cpl: "codePointAt ?l (index ?t) = Some code"
    unfolding it using codePointAt_piece [OF cp ap pb bl] .
  have seg: "take (segLen code) (drop (index ?t) ?l) = piece str p (p + segLen code)"
    unfolding it using take_drop_piece [of "p - a" "segLen code" b a str] ap pb
    by (simp add: take_segment_piece)
  have app: "piece str a p @ piece str p (p + segLen code) = piece str a (p + segLen code)"
    using piece_append [OF ap, of "p + segLen code" str] by simp
  let ?t1 = "addSegment (take (segLen code) (drop (index ?t) ?l), segWidth code)
               (?t\<lparr>index := index ?t + (segLen code - 1)\<rparr>)"
  have t1: "?t1 = \<lparr>lines = [], bgUnclosed = [], line = piece str a (p + segLen code),
                  lineWidth = lw + segWidth code, index = p - a + (segLen code - 1), ansiMatch = None\<rparr>"
    unfolding seg by (simp add: addSegment_def scanState_def app pl length_piece)
  have nd: "dashBreak w ?l code ?t1 = ?t1"
  proof (cases "p + segLen code = b")
    case True
    then have "int (p - a + (segLen code - 1)) = int (length ?l) - 1"
      using ll ap segLen_pos [of code] by simp
    then show ?thesis unfolding t1 by (simp add: dashBreak_def)
  next
    case False
    with nodash have "\<not> (lw + segWidth code \<ge> w \<and> isBreakingDash code)" by simp
    then show ?thesis unfolding t1 by (auto simp: dashBreak_def)
  qed
  have fit': "lineWidth ?t + segWidth code \<le> w" using fit by (simp add: scanState_def)
  have cs: "codeStep False 0 w ?l ?t = ?t1"
    using codeStep_char [OF cpl nl] charStep_fit [OF fit', of ?l] nd by simp
  have "ansiMatch ?t = None" by (simp add: scanState_def)
  then have iter: "iteration rx False 0 w ?l ?t = (False, ?t1)"
    using cs by (simp add: iteration_no_ansi)
  have nxt: "?t1\<lparr>index := index ?t1 + 1\<rparr>
           = scanState (piece str a (p + segLen code)) (lw + segWidth code)"
    unfolding t1 using ap pb bl segLen_pos [of code] by (simp add: scanState_def length_piece)
  show ?thesis
    using loop_pass [OF lt iter] nxt by simp
qed

lemma clean_rewraps:
  assumes "plainText rx str" and "2 \<le> w" and "0x0A \<notin> set (piece str a e)"
    and "loop rx False 0 w (piece str a e) startState = scanState (piece str a e) wd"
  shows "rewraps rx w (piece str a e)"
proof (cases "piece str a e = []")
  case True
  then show ?thesis by (simp add: rewraps_def breakLine_def)
next
  case False
  have "sublist (piece str a e) str" by (rule sublist_piece)
  with assms(1,3) have n: "lineBreakReplace rx (piece str a e) = piece str a e"
    and m: "ansiConsecMatch rx (piece str a e) = None"
    unfolding plainText_def by blast+
  have "breakLine rx (piece str a e) (JInt w) None
        = lines (push (loop rx (optTrimBreak None) (optTolerance None) w (piece str a e) startState))"
    by (rule breakLine_no_ansi [OF False assms(2) n m])
  also have "\<dots> = lines (push (scanState (piece str a e) wd))"
    using assms(4) by (simp add: optTrimBreak_def optTolerance_def)
  also have "\<dots> = [piece str a e]"
    by (simp add: push_def scanState_def)
  finally show ?thesis by (simp add: rewraps_def)
qed

lemma plainScan_after_push:
  assumes "i \<le> length str"
  shows "plainScan str i ((push u)\<lparr>index := i\<rparr>) \<longleftrightarrow> ansiMatch u = None \<and> bgUnclosed u = []"
  using assms by (auto simp: plainScan_def push_def)

lemma wrapsStably_after_push:
  assumes pt: "plainText rx str" and w2: "2 \<le> w"
    and eq: "u' = (push u1)\<lparr>index := i\<rparr>"
    and bg: "bgUnclosed u1 = []" and l1: "line u1 = piece str a e"
    and nl: "0x0A \<notin> set (piece str a e)" and lu: "lines u1 = lines u"
    and il: "e \<le> length str" and ie: "index u \<le> e"
    and nxt: "wrapsStably rx w str i u'"
    and out: "loop rx False 0 w str u = loop rx False 0 w str u'"
    and cl: "loop rx False 0 w (piece str a e) (scanState (line u) (lineWidth u))
              = scanState (piece str a e) wd"
  shows "wrapsStably rx w str a u"
proof -
  from nxt obtain e' rest' wd' where
    b: "lines (push (loop rx False 0 w str u')) = lines u' @ piece str i e' # rest'"
    and c: "0x0A \<notin> set (piece str i e')"
    and d: "loop rx False 0 w (piece str i e') (scanState (line u') (lineWidth u'))
            = scanState (piece str i e') wd'"
    and r: "list_all (rewraps rx w) rest'"
    unfolding wrapsStably_def by blast
  have lu': "lines u' = lines u @ [piece str a e]"
    using eq bg l1 lu by (simp add: push_def)
  have "line u' = []" "lineWidth u' = 0"
    using eq bg by (simp_all add: push_def)
  then have "loop rx False 0 w (piece str i e') startState = scanState (piece str i e') wd'"
    using d by (simp add: scanState_start)
  then have rw: "rewraps rx w (piece str i e')"
    by (rule clean_rewraps [OF pt w2 c])
  have "lines (push (loop rx False 0 w str u)) = lines u @ piece str a e # (piece str i e' # rest')"
    using out b lu' by simp
  moreover have "list_all (rewraps rx w) (piece str i e' # rest')"
    using rw r by simp
  ultimately show ?thesis
    unfolding wrapsStably_def using ie il nl cl by blast
qed

text \<open>A pass over a character whose segment fits in the line.\<close>

lemma wrapsStably_fit:
  assumes pt: "plainText rx str" and w2: "2 \<le> w"
    and ps: "plainScan str a v"
    and cp: "codePointAt str (index v) = Some code" and nl: "code \<noteq> 0x0A"
    and fit: "lineWidth v + segWidth code \<le> w"
    and IH: "\<And>u' a'. index v < index u' \<Longrightarrow> plainScan str a' u' \<Longrightarrow> wrapsStably rx w str a' u'"
  shows "wrapsStably rx w str a v"
proof -
  let ?p = "index v" and ?n = "segLen code" and ?sw = "segWidth code" and ?lw = "lineWidth v"
  have pn: "?p + ?n \<le> length str" using cp by (rule codePointAt_segLen)
  have n0: "0 < ?n" by (rule segLen_pos)
  have lt: "?p < length str" using pn n0 by simp
  from ps have am: "ansiMatch v = None" and bg: "bgUnclosed v = []" and ap: "a \<le> ?p"
    and lv: "line v = piece str a ?p" and nlv: "0x0A \<notin> set (line v)"
    unfolding plainScan_def by blast+
  let ?v1 = "addSegment (take ?n (drop ?p str), ?sw) (v\<lparr>index := ?p + (?n - 1)\<rparr>)"
  have app: "piece str a ?p @ piece str ?p (?p + ?n) = piece str a (?p + ?n)"
    using piece_append [OF ap, of "?p + ?n" str] by simp
  have line1: "line ?v1 = piece str a (?p + ?n)"
    by (simp add: addSegment_def lv take_segment_piece app)
  have f1: "lines ?v1 = lines v" "bgUnclosed ?v1 = []" "ansiMatch ?v1 = None"
    "lineWidth ?v1 = ?lw + ?sw" "index ?v1 = ?p + (?n - 1)"
    by (simp_all add: addSegment_def bg am)
  have nl1: "0x0A \<notin> set (piece str a (?p + ?n))"
    using nlv lv segment_no_newline [OF cp nl] app [symmetric] by simp
  have cs: "codeStep False 0 w str v = dashBreak w str code ?v1"
    using codeStep_char [OF cp nl] charStep_fit [OF fit, of str] by simp
  have iter: "iteration rx False 0 w str v = (False, dashBreak w str code ?v1)"
    using am cs by (simp add: iteration_no_ansi)
  show ?thesis
  proof (cases "lineWidth ?v1 \<ge> w \<and> int (index ?v1) < int (length str) - 1 \<and> isBreakingDash code")
    case True
    then have db: "dashBreak w str code ?v1 = push ?v1" by (simp add: dashBreak_def)
    let ?u' = "(push ?v1)\<lparr>index := ?p + ?n\<rparr>"
    have nx: "(dashBreak w str code ?v1)\<lparr>index := index (dashBreak w str code ?v1) + 1\<rparr> = ?u'"
      unfolding db using n0 by (simp add: f1)
    have out: "loop rx False 0 w str v = loop rx False 0 w str ?u'"
      using loop_pass [OF lt iter] nx by simp
    have ps': "plainScan str (?p + ?n) ?u'"
      using plainScan_after_push [OF pn, of ?v1] f1 by simp
    have good': "wrapsStably rx w str (?p + ?n) ?u'"
      using IH [OF _ ps'] n0 by simp
    have "loop rx False 0 w (piece str a (?p + ?n)) (scanState (piece str a ?p) ?lw)
          = loop rx False 0 w (piece str a (?p + ?n)) (scanState (piece str a (?p + ?n)) (?lw + ?sw))"
      by (rule rescan_pass [OF cp nl ap _ pn fit]) simp_all
    then have cl: "loop rx False 0 w (piece str a (?p + ?n)) (scanState (line v) (lineWidth v))
          = scanState (piece str a (?p + ?n)) (?lw + ?sw)"
      by (simp add: lv loop_scanState_done)
    show ?thesis
      by (rule wrapsStably_after_push [OF pt w2 refl f1(2) line1 nl1 f1(1) pn _ good' out cl]) simp
  next
    case False
    then have db: "dashBreak w str code ?v1 = ?v1" by (auto simp: dashBreak_def)
    let ?u' = "?v1\<lparr>index := ?p + ?n\<rparr>"
    have nx: "(dashBreak w str code ?v1)\<lparr>index := index (dashBreak w str code ?v1) + 1\<rparr> = ?u'"
      unfolding db using n0 by (simp add: f1)
    have out: "loop rx False 0 w str v = loop rx False 0 w str ?u'"
      using loop_pass [OF lt iter] nx by simp
    have ps': "plainScan str a ?u'"
      using f1 line1 nl1 ap pn by (simp add: plainScan_def)
    have "wrapsStably rx w str a ?u'"
      using IH [OF _ ps'] n0 by simp
    then obtain e rest wd where
      a: "?p + ?n \<le> e" "e \<le> length str"
      and b: "lines (push (loop rx False 0 w str ?u')) = lines ?u' @ piece str a e # rest"
      and c: "0x0A \<notin> set (piece str a e)"
      and d: "loop rx False 0 w (piece str a e) (scanState (line ?u') (lineWidth ?u'))
              = scanState (piece str a e) wd"
      and r: "list_all (rewraps rx w) rest"
      unfolding wrapsStably_def by auto
    have nodash: "\<not> (?lw + ?sw \<ge> w \<and> isBreakingDash code) \<or> ?p + ?n = e"
    proof (cases "?lw + ?sw \<ge> w \<and> isBreakingDash code")
      case True
      with False f1 have "\<not> int (?p + (?n - 1)) < int (length str) - 1" by simp
      then have "length str \<le> ?p + ?n" using n0 by simp
      with a show ?thesis by simp
    next
      case False
      then show ?thesis by simp
    qed
    have "loop rx False 0 w (piece str a e) (scanState (piece str a ?p) ?lw)
          = loop rx False 0 w (piece str a e) (scanState (piece str a (?p + ?n)) (?lw + ?sw))"
      by (rule rescan_pass [OF cp nl ap a(1) a(2) fit nodash])
    also have "\<dots> = scanState (piece str a e) wd"
      using d by (simp add: addSegment_def lv take_segment_piece app)
    finally have cl: "loop rx False 0 w (piece str a e) (scanState (line v) (lineWidth v))
              = scanState (piece str a e) wd"
      by (simp add: lv)
    have "lines (push (loop rx False 0 w str v)) = lines v @ piece str a e # rest"
      using out b by (simp add: addSegment_def)
    moreover have "index v \<le> e" using a(1) by simp
    ultimately show ?thesis
      unfolding wrapsStably_def using a(2) c cl r by blast
  qed
qed

lemma loop_same_pass:
  assumes "index u = index v" and "index u < length str"
    and "iteration rx trim tol w str u = iteration rx trim tol w str v"
  shows "loop rx trim tol w str u = loop rx trim tol w str v"
  using assms
  by (subst loop.simps [of _ _ _ _ _ u], subst loop.simps [of _ _ _ _ _ v]) simp

lemma wrapsStably_all:
  assumes pt: "plainText rx str" and w2: "2 \<le> w"
  shows "plainScan str a u \<Longrightarrow> wrapsStably rx w str a u"
proof (induction "length str - index u" arbitrary: u a rule: less_induct)
  case less
  note ps = less.prems
  from ps have am: "ansiMatch u = None" and bg: "bgUnclosed u = []" and ap: "a \<le> index u"
    and il: "index u \<le> length str"
    and lv: "line u = piece str a (index u)" and nlv: "0x0A \<notin> set (line u)"
    unfolding plainScan_def by blast+
  have nlp: "0x0A \<notin> set (piece str a (index u))" using nlv lv by simp
  have fin: "loop rx False 0 w (piece str a (index u)) (scanState (line u) (lineWidth u))
              = scanState (piece str a (index u)) (lineWidth u)"
    by (simp add: lv loop_scanState_done)
  show ?case
  proof (cases "index u < length str")
    case False
    then have "loop rx False 0 w str u = u" by (simp add: loop_exit)
    then have "lines (push (loop rx False 0 w str u)) = lines u @ piece str a (index u) # []"
      using bg lv by (simp add: push_def)
    moreover have "list_all (rewraps rx w) []" by simp
    ultimately show ?thesis
      unfolding wrapsStably_def using il nlp fin by blast
  next
    case True
    have IH: "\<And>u' a'. index u < index u' \<Longrightarrow> plainScan str a' u' \<Longrightarrow> wrapsStably rx w str a' u'"
    proof -
      fix u' a' assume "index u < index u'" and p': "plainScan str a' u'"
      with True have "length str - index u' < length str - index u" by simp
      then show "wrapsStably rx w str a' u'" using p' by (rule less.hyps)
    qed
    from codePointAt_Some [OF True] obtain code where cp: "codePointAt str (index u) = Some code"
      by blast
    show ?thesis
    proof (cases "code = 0x0A")
      case True
      let ?u' = "(push u)\<lparr>index := index u + 1\<rparr>"
      have "codeStep False 0 w str u = push u" using cp True by (simp add: codeStep_def)
      then have iter: "iteration rx False 0 w str u = (False, push u)"
        using am by (simp add: iteration_no_ansi)
      have out: "loop rx False 0 w str u = loop rx False 0 w str ?u'"
        using loop_pass [OF \<open>index u < length str\<close> iter] by simp
      have i1: "index u + 1 \<le> length str" using \<open>index u < length str\<close> by simp
      have ps': "plainScan str (index u + 1) ?u'"
        using plainScan_after_push [OF i1, of u] am bg by simp
      have good': "wrapsStably rx w str (index u + 1) ?u'"
        using IH [OF _ ps'] by simp
      show ?thesis
        by (rule wrapsStably_after_push [OF pt w2 refl bg lv nlp refl il _ good' out fin]) simp
    next
      case False
      show ?thesis
      proof (cases "lineWidth u + segWidth code \<le> w")
        case True
        show ?thesis by (rule wrapsStably_fit [OF pt w2 ps cp False True IH])
      next
        case over: False
        let ?v = "push u"
        have v: "?v = (push u)\<lparr>index := index u\<rparr>" by (simp add: push_def)
        have psv: "plainScan str (index u) ?v"
          using am bg il by (simp add: plainScan_def push_def)
        have cpv: "codePointAt str (index ?v) = Some code" using cp by simp
        have fitv: "lineWidth ?v + segWidth code \<le> w"
          using w2 segWidth_le [of code] by simp
        have IHv: "\<And>u' a'. index ?v < index u' \<Longrightarrow> plainScan str a' u' \<Longrightarrow> wrapsStably rx w str a' u'"
          using IH by simp
        have goodv: "wrapsStably rx w str (index u) ?v"
          by (rule wrapsStably_fit [OF pt w2 psv cpv False fitv IHv])
        have "charStep False 0 w str code u = charStep False 0 w str code ?v"
          using over by (intro charStep_over_push [OF w2]) simp
        then have "codeStep False 0 w str u = codeStep False 0 w str ?v"
          using codeStep_char [OF cp False] codeStep_char [OF cpv False] by simp
        then have "iteration rx False 0 w str u = iteration rx False 0 w str ?v"
          using am by (simp add: iteration_no_ansi)
        then have out: "loop rx False 0 w str u = loop rx False 0 w str ?v"
          using \<open>index u < length str\<close> by (intro loop_same_pass) simp_all
        show ?thesis
          by (rule wrapsStably_after_push [OF pt w2 v bg lv nlp refl il _ goodv out fin]) simp
      qed
    qed
  qed
qed

lemma breakLines_rewraps: "list_all (rewraps rx w) ls \<Longrightarrow> breakLines rx ls (JInt w) = ls"
proof (induction ls)
  case Nil
  show ?case by (simp add: breakLines_def)
next
  case (Cons l ls)
  then have a: "breakLine rx l (JInt w) None = [l]" and b: "breakLines rx ls (JInt w) = ls"
    by (simp_all add: rewraps_def)
  have "breakLines rx (l # ls) (JInt w) = breakLine rx l (JInt w) None @ breakLines rx ls (JInt w)"
    by (simp add: breakLines_def)
  then show ?case unfolding a b by simp
qed

lemma breakLines_single: "breakLine rx s w None = [s] \<Longrightarrow> breakLines rx [s] w = [s]"
  by (simp add: breakLines_def)

lemma breakLine_valid:
  assumes m: "ansiConsecMatch rx (lineBreakReplace rx s) = None" and k2: "2 \<le> k" and ne: "s \<noteq> []"
  shows "breakLine rx s (JInt k) None = lines (push (loop rx False 0 k (lineBreakReplace rx s) startState))"
proof -
  have i: "initState rx (lineBreakReplace rx s) = startState"
    using m by (rule initState_no_ansi)
  show ?thesis
    using k2 ne by (simp add: breakLine_def Let_def i optTrimBreak_def optTolerance_def)
qed

lemma breakLine_invalid:
  assumes "s = [] \<or> (\<forall>k. w = JInt k \<longrightarrow> k < 2)"
  shows "breakLine rx s w opts = [s]"
  using assms
proof
  assume "s = []"
  then show ?thesis by (simp add: breakLine_def)
next
  assume "\<forall>k. w = JInt k \<longrightarrow> k < 2"
  then show ?thesis by (cases w) (simp_all add: breakLine_def)
qed

lemma plainScan_start: "plainScan str 0 startState"
  by (simp add: plainScan_def startState_def)

text \<open>
  C5 (as amended). Wrapping again at the same width returns the same lines, one for one,
  for every string in which the regular expressions find nothing (\<open>plainText\<close> of the
  normalised string: no ANSI sequence, and the pieces between line feeds are not changed by
  the normalisation of line breaks), and for every width, valid or not.
\<close>

theorem breakLines_idempotent_plain:
  assumes "plainText rx (lineBreakReplace rx s)"
  shows "breakLines rx (breakLine rx s w None) w = breakLine rx s w None"
proof (cases "s = [] \<or> (\<forall>k. w = JInt k \<longrightarrow> k < 2)")
  case True
  then have single: "breakLine rx s w None = [s]" by (rule breakLine_invalid)
  then have "breakLines rx [s] w = [s]" by (rule breakLines_single)
  then show ?thesis unfolding single .
next
  case False
  then have ne: "s \<noteq> []" and "\<exists>k. w = JInt k \<and> \<not> k < 2" by blast+
  then obtain k where w: "w = JInt k" and k2: "2 \<le> k" by auto
  let ?str = "lineBreakReplace rx s"
  from assms have m: "ansiConsecMatch rx ?str = None" unfolding plainText_def by (rule conjunct1)
  have b: "breakLine rx s (JInt k) None = lines (push (loop rx False 0 k ?str startState))"
    by (rule breakLine_valid [OF m k2 ne])
  have "wrapsStably rx k ?str 0 startState"
    by (rule wrapsStably_all [OF assms k2 plainScan_start])
  then obtain e rest wd where
    o: "lines (push (loop rx False 0 k ?str startState)) = lines startState @ piece ?str 0 e # rest"
    and c: "0x0A \<notin> set (piece ?str 0 e)"
    and d: "loop rx False 0 k (piece ?str 0 e) (scanState (line startState) (lineWidth startState))
            = scanState (piece ?str 0 e) wd"
    and r: "list_all (rewraps rx k) rest"
    unfolding wrapsStably_def by blast
  have s0: "lines startState = []" "line startState = []" "lineWidth startState = 0"
    by (simp_all add: startState_def)
  have "loop rx False 0 k (piece ?str 0 e) startState = scanState (piece ?str 0 e) wd"
    using d unfolding s0 scanState_start .
  then have "rewraps rx k (piece ?str 0 e)"
    by (rule clean_rewraps [OF assms k2 c])
  with r have all: "list_all (rewraps rx k) (piece ?str 0 e # rest)" by simp
  have out: "breakLine rx s (JInt k) None = piece ?str 0 e # rest"
    unfolding b o s0 by simp
  have "breakLines rx (piece ?str 0 e # rest) (JInt k) = piece ?str 0 e # rest"
    using all by (rule breakLines_rewraps)
  then show ?thesis unfolding w out .
qed

text \<open>
  The modelled regular expressions find nothing in a string without ESC and without line
  terminators.
\<close>

lemma modelLineBreakReplace_id:
  "list_all (\<lambda>u. \<not> isLineTerminator u) c \<Longrightarrow> modelLineBreakReplace c = c"
proof (induction c rule: modelLineBreakReplace.induct)
  case 1
  show ?case by simp
next
  case (2 c)
  then show ?case by simp
next
  case (3 c d ds)
  then have "c \<noteq> 0x0D" by (auto simp: isLineTerminator_def)
  with 3 show ?case by simp
qed

lemma csiLength_no_esc: "c \<noteq> 0x1B \<Longrightarrow> csiLength (c # cs) = 0"
  by (simp add: csiLength_def split: list.splits)

lemma modelConsecMatch_no_esc: "0x1B \<notin> set c \<Longrightarrow> modelConsecMatch c = None"
  by (induction c) (simp_all add: csiLength_no_esc)

lemma plainText_model:
  assumes "lineBreakReplace modelRegexes s = s"
    and "list_all (\<lambda>u. u = 0x0A \<or> (\<not> isLineTerminator u \<and> u \<noteq> 0x1B)) s"
  shows "plainText modelRegexes (lineBreakReplace modelRegexes s)"
proof -
  have all: "u \<in> set s \<Longrightarrow> u \<noteq> 0x0A \<Longrightarrow> \<not> isLineTerminator u \<and> u \<noteq> 0x1B" for u
    using assms(2) by (auto simp: list_all_iff)
  have esc: "0x1B \<notin> set s"
    using assms(2) by (auto simp: list_all_iff)
  have a: "ansiConsecMatch modelRegexes s = None"
    using modelConsecMatch_no_esc [OF esc] by (simp add: modelRegexes_def)
  have b: "lineBreakReplace modelRegexes c = c \<and> ansiConsecMatch modelRegexes c = None"
    if c: "sublist c s" "0x0A \<notin> set c" for c
  proof -
    have sub: "set c \<subseteq> set s" using c(1) by (rule set_mono_sublist)
    have "list_all (\<lambda>u. \<not> isLineTerminator u) c"
      unfolding list_all_iff using sub c(2) all by blast
    then have "modelLineBreakReplace c = c" by (rule modelLineBreakReplace_id)
    moreover have "0x1B \<notin> set c" using sub esc by blast
    then have "modelConsecMatch c = None" by (rule modelConsecMatch_no_esc)
    ultimately show ?thesis by (simp add: modelRegexes_def)
  qed
  show ?thesis
    unfolding plainText_def assms(1) using a b by blast
qed

theorem breakLines_idempotent_plain_witness:
  "plainText modelRegexes (lineBreakReplace modelRegexes (utf16 ''ab-cd'' @ [0x0A] @ utf16 ''e fgh''))
   \<and> breakLines modelRegexes
        (breakLine modelRegexes (utf16 ''ab-cd'' @ [0x0A] @ utf16 ''e fgh'') (JInt 3) None) (JInt 3)
       = breakLine modelRegexes (utf16 ''ab-cd'' @ [0x0A] @ utf16 ''e fgh'') (JInt 3) None
   \<and> breakLine modelRegexes (utf16 ''ab-cd'' @ [0x0A] @ utf16 ''e fgh'') (JInt 3) None
       = [utf16 ''ab-'', utf16 ''cd'', utf16 ''e f'', utf16 ''gh'']"
proof -
  let ?s = "utf16 ''ab-cd'' @ [0x0A] @ utf16 ''e fgh''"
  have n: "lineBreakReplace modelRegexes ?s = ?s" by code_simp
  have u: "list_all (\<lambda>u. u = 0x0A \<or> (\<not> isLineTerminator u \<and> u \<noteq> 0x1B)) ?s" by code_simp
  have pt: "plainText modelRegexes (lineBreakReplace modelRegexes ?s)"
    by (rule plainText_model [OF n u])
  have ex: "breakLine modelRegexes ?s (JInt 3) None
       = [utf16 ''ab-'', utf16 ''cd'', utf16 ''e f'', utf16 ''gh'']" by code_simp
  show ?thesis
    using breakLines_idempotent_plain [OF pt, of "JInt 3"] pt ex by simp
qed

end
